theory Spec2Isabelle
  imports Main "HOL-Library.List_Lexorder" "HOL-Library.Char_ord" "HOL-Library.Sublist"
    "HOL-Library.Multiset"
begin

section \<open>The worker's bounded, time-ordered post log\<close>

text \<open>
  The worker keeps its posts in a flat key-value namespace (\<open>env.POSTS\<close>). A post is written
  under the key \<open>post:TS:ID\<close> (\<open>TS\<close> the timestamp padded to 13 digits), the feed is read back by a paginated
  prefix scan (\<open>listKV\<close>), and after every write the oldest keys beyond \<open>MAX_POSTS\<close> are
  deleted (\<open>trimPosts\<close>). This theory embeds these functions of the worker
  (\<open>src/unnamed/part_000\<close>) and the scan and key construction of the older worker
  (\<open>src/worker/index.js\<close>), and proves the properties the specification states about them.

  Strings are \<open>char list\<close>, ordered lexicographically by character code, which is the order
  of JavaScript's \<open><\<close> and \<open>Array.prototype.sort()\<close> on ASCII strings. Numbers that the
  code treats as integers (timestamps, the size bound) are \<open>int\<close>; \<open>NaN\<close> is \<open>None\<close>.
\<close>

subsection \<open>JavaScript primitives used by the worker\<close>

text \<open>\<open>String(n)\<close> for an integer \<open>n\<close>: the decimal digits, with a leading \<open>-\<close> when
  negative (JavaScript prints integers below \<open>10^21\<close> in magnitude this way).\<close>

definition digit_char :: "nat \<Rightarrow> char" where
  "digit_char d = ''0123456789'' ! d"

fun nat_digits :: "nat \<Rightarrow> string" where
  "nat_digits n =
     (if n < 10 then [digit_char n] else nat_digits (n div 10) @ [digit_char (n mod 10)])"

declare nat_digits.simps [simp del]

definition js_String :: "int \<Rightarrow> string" where
  "js_String n = (if n < 0 then CHR ''-'' # nat_digits (nat (- n)) else nat_digits (nat n))"

text \<open>\<open>s.padStart(n, c)\<close> with a one-character filler.\<close>

definition padStart :: "nat \<Rightarrow> char \<Rightarrow> string \<Rightarrow> string" where
  "padStart n c s = replicate (n - length s) c @ s"

text \<open>\<open>parseInt(s, 10)\<close>: leading white space is skipped, one sign is read, then the longest
  run of decimal digits; no digit at all gives \<open>NaN\<close> (\<open>None\<close>).\<close>

definition is_space :: "char \<Rightarrow> bool" where
  "is_space c = (c \<in> set [CHR '' '', CHR 0x09, CHR 0x0A, CHR 0x0B, CHR 0x0C, CHR 0x0D])"

definition is_digit :: "char \<Rightarrow> bool" where
  "is_digit c = (c \<in> set ''0123456789'')"

definition digit_val :: "char \<Rightarrow> nat" where
  "digit_val c = length (takeWhile (\<lambda>d. d \<noteq> c) ''0123456789'')"

definition digits_value :: "string \<Rightarrow> nat" where
  "digits_value ds = foldl (\<lambda>a c. 10 * a + digit_val c) 0 ds"

definition parseInt :: "string \<Rightarrow> int option" where
  "parseInt s =
     (let s1 = dropWhile is_space s;
          neg = (s1 \<noteq> [] \<and> hd s1 = CHR ''-'');
          s2 = (if s1 \<noteq> [] \<and> (hd s1 = CHR ''-'' \<or> hd s1 = CHR ''+'') then tl s1 else s1);
          z = takeWhile is_digit s2
      in if z = [] then None
         else Some (if neg then - int (digits_value z) else int (digits_value z)))"

text \<open>Truthiness of an optional string (\<open>undefined\<close> and \<open>""\<close> are falsy).\<close>

definition truthy :: "string option \<Rightarrow> bool" where
  "truthy c = (case c of None \<Rightarrow> False | Some x \<Rightarrow> x \<noteq> [])"

text \<open>\<open>xs.slice(0, end)\<close> for an integer \<open>end\<close>: a negative \<open>end\<close> counts from the back,
  and the bounds are clamped to the array.\<close>

definition slice0 :: "'a list \<Rightarrow> int \<Rightarrow> 'a list" where
  "slice0 xs e =
     (let len = int (length xs);
          k = (if e < 0 then max (len + e) 0 else min e len)
      in take (nat k) xs)"

subsection \<open>The key-value namespace\<close>

text \<open>
  The namespace binding (\<open>env.POSTS\<close>) is a collaborator of the worker, not part of its code.
  It is modelled by its contract: \<open>get\<close>, \<open>put\<close>, \<open>delete\<close> on single keys and a \<open>list\<close>
  that returns the keys with a given prefix, each once, at most \<open>limit\<close> per call, with a
  completion flag and a continuation cursor. The contract promises no order of listing.
  The model is a list of pairs in which the first pair of a key is its binding, and
  \<open>list\<close> returns the keys in the order of this list, so that the order of the pairs stands
  for whatever order the service lists in; \<open>put\<close> keeps the place of a key that is bound
  and adds a new key at the end. Three fields describe the service rather than
  the data: \<open>limit\<close> (the batch size), \<open>last_cursor\<close> (what the service returns as cursor
  together with \<open>list_complete = true\<close>; both can be set), and \<open>delete_fails\<close> (the keys
  whose \<open>delete\<close> call is rejected).
\<close>

record 'v namespace =
  pairs :: "(string \<times> 'v) list"
  limit :: nat
  last_cursor :: "string option"
  delete_fails :: "string \<Rightarrow> bool"

type_synonym list_result = "string list \<times> bool \<times> string option"

definition kv_keys :: "(string \<times> 'v) list \<Rightarrow> string list" where
  "kv_keys ps = remdups (map fst ps)"

text \<open>The keys of the namespace that start with the prefix, in the order of listing.\<close>

definition prefix_keys :: "'v namespace \<Rightarrow> string \<Rightarrow> string list" where
  "prefix_keys ns p = filter (prefix p) (kv_keys (pairs ns))"

text \<open>The cursor is opaque to the worker; the model's cursor is the offset of the next
  batch in decimal.\<close>

definition cursor_offset :: "string option \<Rightarrow> nat" where
  "cursor_offset c = (case c of None \<Rightarrow> 0 | Some x \<Rightarrow> digits_value x)"

definition ns_list :: "'v namespace \<Rightarrow> string \<Rightarrow> string option \<Rightarrow> list_result" where
  "ns_list ns p c =
     (let rest = drop (cursor_offset c) (prefix_keys ns p);
          complete = (length rest \<le> limit ns)
      in (take (limit ns) rest, complete,
          if complete then last_cursor ns
          else Some (nat_digits (cursor_offset c + limit ns))))"

definition ns_get :: "'v namespace \<Rightarrow> string \<Rightarrow> 'v option" where
  "ns_get ns k = map_of (pairs ns) k"

fun put_pair :: "string \<Rightarrow> 'v \<Rightarrow> (string \<times> 'v) list \<Rightarrow> (string \<times> 'v) list" where
  "put_pair k v [] = [(k, v)]"
| "put_pair k v (q # qs) = (if fst q = k then (k, v) # qs else q # put_pair k v qs)"

definition ns_put :: "'v namespace \<Rightarrow> string \<Rightarrow> 'v \<Rightarrow> 'v namespace" where
  "ns_put ns k v = ns\<lparr>pairs := put_pair k v (pairs ns)\<rparr>"

text \<open>\<open>delete\<close> returns \<open>None\<close> when the call is rejected, and the namespace without the
  key otherwise (deleting an absent key succeeds).\<close>

definition ns_delete :: "'v namespace \<Rightarrow> string \<Rightarrow> 'v namespace option" where
  "ns_delete ns k =
     (if delete_fails ns k then None
      else Some (ns\<lparr>pairs := filter (\<lambda>p. fst p \<noteq> k) (pairs ns)\<rparr>))"

subsection \<open>The paginated scan and the trim of the worker (\<open>src/unnamed/part_000\<close>)\<close>

text \<open>
  The body of the \<open>for\<close> loop of \<open>listKV\<close>: each listed key is fetched, and pushed with its
  value unless the value is falsy. A stored post is a JSON object, which is always truthy,
  so the only falsy result is \<open>null\<close>, the answer of \<open>get\<close> for an absent key (\<open>None\<close>).
\<close>

fun push_values :: "(string \<Rightarrow> 'v option) \<Rightarrow> string list \<Rightarrow> (string \<times> 'v) list \<Rightarrow> (string \<times> 'v) list" where
  "push_values get_json [] out = out"
| "push_values get_json (k # ks) out =
     (case get_json k of
        None \<Rightarrow> push_values get_json ks out
      | Some v \<Rightarrow> push_values get_json ks (out @ [(k, v)]))"

text \<open>
  The \<open>do ... while (cursor)\<close> loop of \<open>listKV\<close>. The loop runs as long as the service
  returns a truthy cursor without the completion flag, so it is a partial function: \<open>None\<close>
  is a scan that never returns. The \<open>list\<close> and \<open>get\<close> calls are parameters, as they are
  methods of the \<open>ns\<close> argument in the code.
\<close>

partial_function (option) listKV_loop ::
  "(string \<Rightarrow> string option \<Rightarrow> list_result) \<Rightarrow> (string \<Rightarrow> 'v option) \<Rightarrow> string \<Rightarrow>
   string option \<Rightarrow> (string \<times> 'v) list \<Rightarrow> (string \<times> 'v) list option" where
  "listKV_loop list_fn get_json pfx cursor out =
     (case list_fn pfx cursor of (keys, list_complete, next) \<Rightarrow>
        let out' = push_values get_json keys out;
            cursor' = (if list_complete then None else next)
        in if truthy cursor' then listKV_loop list_fn get_json pfx cursor' out'
           else Some out')"

definition listKV :: "'v namespace \<Rightarrow> string \<Rightarrow> (string \<times> 'v) list option" where
  "listKV ns pfx = listKV_loop (ns_list ns) (ns_get ns) pfx None []"

text \<open>The listing loop of \<open>trimPosts\<close>, which collects the key names only.\<close>

partial_function (option) trim_names_loop ::
  "(string \<Rightarrow> string option \<Rightarrow> list_result) \<Rightarrow> string \<Rightarrow> string option \<Rightarrow> string list \<Rightarrow>
   string list option" where
  "trim_names_loop list_fn pfx cursor names =
     (case list_fn pfx cursor of (keys, list_complete, next) \<Rightarrow>
        let names' = names @ keys;
            cursor' = (if list_complete then None else next)
        in if truthy cursor' then trim_names_loop list_fn pfx cursor' names'
           else Some names')"

text \<open>
  \<open>Promise.all(toDelete.map((n) => ns.delete(n)))\<close>: every delete is issued; the promise is
  rejected when one of them is, and the other deletes still take effect.
\<close>

datatype outcome = Fulfilled | Rejected

fun delete_all :: "'v namespace \<Rightarrow> string list \<Rightarrow> outcome \<times> 'v namespace" where
  "delete_all ns [] = (Fulfilled, ns)"
| "delete_all ns (n # rest) =
     (case ns_delete ns n of
        None \<Rightarrow> (Rejected, snd (delete_all ns rest))
      | Some ns' \<Rightarrow> delete_all ns' rest)"

text \<open>\<open>trimPosts(ns, prefix, max)\<close>; \<open>max\<close> is a JavaScript number, \<open>None\<close> for \<open>NaN\<close>,
  and a comparison with \<open>NaN\<close> is false.\<close>

definition trimPosts :: "'v namespace \<Rightarrow> string \<Rightarrow> int option \<Rightarrow> (outcome \<times> 'v namespace) option" where
  "trimPosts ns pfx mx =
     (case trim_names_loop (ns_list ns) pfx None [] of
        None \<Rightarrow> None
      | Some listed \<Rightarrow>
          let names = sort listed
          in (case mx of
                None \<Rightarrow> Some (Fulfilled, ns)
              | Some m \<Rightarrow>
                  if int (length names) > m
                  then Some (delete_all ns (slice0 names (int (length names) - m)))
                  else Some (Fulfilled, ns)))"

subsection \<open>The request handlers of the worker (\<open>src/unnamed/part_000\<close>)\<close>

text \<open>
  The environment bindings the handlers read. An unset variable is \<open>None\<close>.
\<close>

record env =
  ADMIN_TOKEN :: "string option"
  UPLOAD_KEY :: "string option"
  MAX_POSTS :: "string option"

text \<open>
  The JSON body of \<open>POST /posts\<close>, after the coercions of the handler: \<open>body_timestamp\<close> is
  \<open>Number(body.timestamp)\<close> (an integer, or \<open>None\<close> for \<open>NaN\<close>, which is what an absent or
  non-numeric field gives); the other fields are strings, an absent field being the empty
  string, which is falsy as \<open>undefined\<close> is.
\<close>

record post_body =
  body_timestamp :: "int option"
  body_id :: string
  body_image_url :: string
  body_caption :: string
  body_author :: string
  body_retailer :: string
  body_message_url :: string

text \<open>
  A request: the \<open>authorization\<close> header, the parsed body (\<open>None\<close> when \<open>request.json()\<close>
  throws), and the two values the handler may draw from its runtime while serving it,
  \<open>Date.now()\<close> and \<open>crypto.randomUUID()\<close>.
\<close>

record request =
  authorization :: "string option"
  json_body :: "post_body option"
  now :: int
  randomUUID :: string

text \<open>The stored post. \<open>JSON.stringify\<close> omits the \<open>id\<close> field when it is \<open>undefined\<close>.\<close>

record post_item =
  item_id :: "string option"
  image_url :: string
  caption :: string
  author :: string
  retailer :: string
  timestamp :: int
  message_url :: string

record stats_doc =
  members :: int
  alerts_per_week :: int
  recent_wins :: int
  updated_at :: int

text \<open>
  The values of the namespace: posts under \<open>post:\<close> keys and the statistics document under
  \<open>stats:current\<close>. A value is stored as its JSON text and read back parsed; the model
  keeps the parsed value.
\<close>

datatype stored = Post post_item | Stats stats_doc

datatype response = Ok_key string | Bad string nat | Uncaught

definition bearer :: "request \<Rightarrow> string" where
  "bearer req =
     (let h = (case authorization req of None \<Rightarrow> [] | Some a \<Rightarrow> a)
      in if prefix ''Bearer '' h then drop 7 h else [])"

definition isAuthed :: "env \<Rightarrow> request \<Rightarrow> bool" where
  "isAuthed e req =
     (let t = bearer req
      in if t = [] then False
         else (truthy (ADMIN_TOKEN e) \<and> Some t = ADMIN_TOKEN e) \<or>
              (truthy (UPLOAD_KEY e) \<and> Some t = UPLOAD_KEY e))"

text \<open>\<open>Number(body.timestamp) || Date.now()\<close>: \<open>NaN\<close> and \<open>0\<close> are falsy.\<close>

definition post_ts :: "post_body \<Rightarrow> int \<Rightarrow> int" where
  "post_ts b now_ms =
     (case body_timestamp b of
        None \<Rightarrow> now_ms
      | Some t \<Rightarrow> if t = 0 then now_ms else t)"

text \<open>The key of a post, from the timestamp, the id of the body and the random UUID.\<close>

definition post_key :: "int \<Rightarrow> string \<Rightarrow> string \<Rightarrow> string" where
  "post_key ts pid uuid =
     (let tsKey = padStart 13 CHR ''0'' (js_String ts)
      in if pid \<noteq> [] then ''post:'' @ tsKey @ '':'' @ pid
         else ''post:'' @ tsKey @ '':'' @ uuid)"

definition post_item_of :: "post_body \<Rightarrow> int \<Rightarrow> post_item" where
  "post_item_of b ts =
     \<lparr> item_id = (if body_id b \<noteq> [] then Some (body_id b) else None),
       image_url = body_image_url b,
       caption = body_caption b,
       author = body_author b,
       retailer = body_retailer b,
       timestamp = ts,
       message_url = body_message_url b \<rparr>"

text \<open>\<open>parseInt(env.MAX_POSTS || "50", 10)\<close>.\<close>

definition max_posts :: "env \<Rightarrow> int option" where
  "max_posts e =
     parseInt (case MAX_POSTS e of None \<Rightarrow> ''50'' | Some m \<Rightarrow> if m = [] then ''50'' else m)"

text \<open>
  The \<open>POST /posts\<close> branch of \<open>fetch\<close>. It returns the response and the namespace it leaves;
  \<open>Uncaught\<close> is the exception of a rejected \<open>trimPosts\<close>, which the handler does not catch.
  The result is \<open>None\<close> when the listing of \<open>trimPosts\<close> never ends.
\<close>

definition posts_post ::
  "env \<Rightarrow> request \<Rightarrow> stored namespace \<Rightarrow> (response \<times> stored namespace) option" where
  "posts_post e req ns =
     (if \<not> isAuthed e req then Some (Bad ''unauthorized'' 401, ns)
      else case json_body req of
        None \<Rightarrow> Some (Bad ''invalid json'' 400, ns)
      | Some body \<Rightarrow>
          if body_image_url body = [] then Some (Bad ''missing image_url'' 400, ns)
          else
            let ts = post_ts body (now req);
                key = post_key ts (body_id body) (randomUUID req);
                item = post_item_of body ts;
                ns1 = ns_put ns key (Post item)
            in (case trimPosts ns1 ''post:'' (max_posts e) of
                  None \<Rightarrow> None
                | Some (Rejected, ns2) \<Rightarrow> Some (Uncaught, ns2)
                | Some (Fulfilled, ns2) \<Rightarrow> Some (Ok_key key, ns2)))"

text \<open>A sequence of \<open>POST /posts\<close> requests served one after the other.\<close>

fun serve_posts :: "env \<Rightarrow> request list \<Rightarrow> stored namespace \<Rightarrow> stored namespace option" where
  "serve_posts e [] ns = Some ns"
| "serve_posts e (req # reqs) ns =
     (case posts_post e req ns of
        None \<Rightarrow> None
      | Some (r, ns') \<Rightarrow> serve_posts e reqs ns')"

text \<open>
  The \<open>GET /feed\<close> branch: the scanned items are sorted by descending timestamp
  (\<open>x.value.timestamp || 0\<close>; \<open>Array.prototype.sort\<close> is stable), cut by
  \<open>items.slice(0, 48)\<close>, and mapped to their values. The handler reads no page size from
  the request: \<open>48\<close> is a literal of the code. The result is \<open>None\<close> when the scan never
  ends.
\<close>

definition value_timestamp :: "stored \<Rightarrow> int" where
  "value_timestamp v = (case v of Post p \<Rightarrow> timestamp p | Stats d \<Rightarrow> 0)"

definition feed_get :: "stored namespace \<Rightarrow> stored list option" where
  "feed_get ns =
     (case listKV ns ''post:'' of
        None \<Rightarrow> None
      | Some items \<Rightarrow>
          Some (map snd (take 48 (sort_key (\<lambda>x. - value_timestamp (snd x)) items))))"

subsection \<open>The older worker (\<open>src/worker/index.js\<close>)\<close>

text \<open>
  Its \<open>listKV\<close> collects the values only, and leaves the loop with \<open>break\<close> when the
  completion flag is set. Its post key is built from the timestamp as it is, without
  padding; this worker never trims, and sorts what it reads by the timestamp field.
\<close>

fun push_vals :: "(string \<Rightarrow> 'v option) \<Rightarrow> string list \<Rightarrow> 'v list \<Rightarrow> 'v list" where
  "push_vals get_json [] out = out"
| "push_vals get_json (k # ks) out =
     (case get_json k of
        None \<Rightarrow> push_vals get_json ks out
      | Some val \<Rightarrow> push_vals get_json ks (out @ [val]))"

partial_function (option) index_listKV_loop ::
  "(string \<Rightarrow> string option \<Rightarrow> list_result) \<Rightarrow> (string \<Rightarrow> 'v option) \<Rightarrow> string \<Rightarrow>
   string option \<Rightarrow> 'v list \<Rightarrow> 'v list option" where
  "index_listKV_loop list_fn get_json pfx cursor out =
     (case list_fn pfx cursor of (keys, list_complete, cur) \<Rightarrow>
        let out' = push_vals get_json keys out
        in if list_complete then Some out'
           else if truthy cur then index_listKV_loop list_fn get_json pfx cur out'
           else Some out')"

definition index_listKV :: "'v namespace \<Rightarrow> string \<Rightarrow> 'v list option" where
  "index_listKV ns pfx = index_listKV_loop (ns_list ns) (ns_get ns) pfx None []"

definition index_post_key :: "int \<Rightarrow> string \<Rightarrow> string" where
  "index_post_key ts uuid = ''post:'' @ js_String ts @ '':'' @ uuid"

subsection \<open>Auxiliary notions for the statements and proofs\<close>

text \<open>The last \<open>w\<close> decimal digits of \<open>n\<close>, a string of length \<open>w\<close>.\<close>

fun fixed_digits :: "nat \<Rightarrow> nat \<Rightarrow> string" where
  "fixed_digits 0 n = []"
| "fixed_digits (Suc w) n = fixed_digits w (n div 10) @ [digit_char (n mod 10)]"

text \<open>The listed keys whose value is present, each with its value.\<close>

definition present :: "(string \<Rightarrow> 'v option) \<Rightarrow> string list \<Rightarrow> (string \<times> 'v) list" where
  "present get_json ks = map (\<lambda>k. (k, the (get_json k))) (filter (\<lambda>k. get_json k \<noteq> None) ks)"

text \<open>
  The \<open>names\<close> of \<open>trimPosts\<close> after \<open>names.sort()\<close>, and its \<open>toDelete\<close>, as functions of
  the namespace: the listed keys in ascending order, and the names the trim
  passes to \<open>delete\<close> (none when the count does not exceed the bound). \<open>trim_count\<close> is
  their number, given the number of listed names, and \<open>lastn m\<close> the last \<open>m\<close> elements
  of a list.
\<close>

definition sorted_names :: "'v namespace \<Rightarrow> string \<Rightarrow> string list" where
  "sorted_names ns p = sort (prefix_keys ns p)"

definition toDelete :: "'v namespace \<Rightarrow> string \<Rightarrow> int option \<Rightarrow> string list" where
  "toDelete ns p mx =
     (let names = sorted_names ns p
      in case mx of
           None \<Rightarrow> []
         | Some m \<Rightarrow> if int (length names) > m then slice0 names (int (length names) - m) else [])"

definition trim_count :: "int option \<Rightarrow> nat \<Rightarrow> nat" where
  "trim_count mx n =
     (case mx of
        None \<Rightarrow> 0
      | Some m \<Rightarrow> if int n > m then nat (min (int n - m) (int n)) else 0)"

definition lastn :: "nat \<Rightarrow> 'a list \<Rightarrow> 'a list" where
  "lastn m xs = drop (length xs - m) xs"

text \<open>The namespace that \<open>POST /posts\<close> leaves after the write and the trim.\<close>

definition appended :: "stored namespace \<Rightarrow> string \<Rightarrow> stored \<Rightarrow> int option \<Rightarrow> stored namespace" where
  "appended ns key v mx =
     snd (delete_all (ns_put ns key v) (toDelete (ns_put ns key v) ''post:'' mx))"

text \<open>
  A request is accepted when it passes the three checks of the handler. For an accepted
  request, \<open>req_ts\<close> and \<open>req_key\<close> are the timestamp and the key the handler computes, and
  \<open>req_value\<close> is the record that is to be stored for it: the fields of the body, the \<open>id\<close>
  only when the body has one, and that timestamp.
\<close>

definition accepted :: "env \<Rightarrow> request \<Rightarrow> bool" where
  "accepted e req =
     (isAuthed e req \<and>
      (case json_body req of None \<Rightarrow> False | Some b \<Rightarrow> body_image_url b \<noteq> []))"

definition req_ts :: "request \<Rightarrow> int" where
  "req_ts req = (case json_body req of None \<Rightarrow> 0 | Some b \<Rightarrow> post_ts b (now req))"

definition req_key :: "request \<Rightarrow> string" where
  "req_key req =
     (case json_body req of
        None \<Rightarrow> []
      | Some b \<Rightarrow> post_key (post_ts b (now req)) (body_id b) (randomUUID req))"

definition req_value :: "request \<Rightarrow> stored option" where
  "req_value req =
     (case json_body req of
        None \<Rightarrow> None
      | Some b \<Rightarrow>
          Some (Post \<lparr> item_id = (if body_id b = [] then None else Some (body_id b)),
                       image_url = body_image_url b, caption = body_caption b,
                       author = body_author b, retailer = body_retailer b,
                       timestamp = req_ts req, message_url = body_message_url b \<rparr>))"



subsection \<open>Example data\<close>

text \<open>
  A namespace with four posts, of timestamps 1, 3, 5 and 9, and the statistics document;
  the service returns three keys per call and a cursor with the completion flag.
  \<open>example_ns_raced\<close> is this namespace after one post was deleted by another request,
  \<open>example_ns_failing\<close> the same namespace on a service that rejects the delete of one key,
  and \<open>example_ns_unsorted\<close> a namespace with the same bindings that the service lists in
  another order, with the timestamps 5, 3, 9 and 1. \<open>example_ns_many\<close> holds fifty posts,
  of timestamps 101 to 150.
\<close>

definition example_post :: "int \<Rightarrow> string \<Rightarrow> stored" where
  "example_post ts pid =
     Post \<lparr> item_id = Some pid, image_url = ''https://img.example/'' @ pid, caption = [],
            author = [], retailer = [], timestamp = ts, message_url = [] \<rparr>"

definition example_ns :: "stored namespace" where
  "example_ns =
     \<lparr> pairs = [(''post:0000000000001:d'', example_post 1 ''d''),
                (''post:0000000000003:b'', example_post 3 ''b''),
                (''stats:current'', Stats \<lparr> members = 1200, alerts_per_week = 85,
                                            recent_wins = 8, updated_at = 7 \<rparr>),
                (''post:0000000000005:a'', example_post 5 ''a''),
                (''post:0000000000009:c'', example_post 9 ''c'')],
       limit = 3,
       last_cursor = Some ''end'',
       delete_fails = (\<lambda>k. False) \<rparr>"

definition example_ns_unsorted :: "stored namespace" where
  "example_ns_unsorted =
     \<lparr> pairs = [(''post:0000000000005:a'', example_post 5 ''a''),
                (''post:0000000000003:b'', example_post 3 ''b''),
                (''stats:current'', Stats \<lparr> members = 1200, alerts_per_week = 85,
                                            recent_wins = 8, updated_at = 7 \<rparr>),
                (''post:0000000000009:c'', example_post 9 ''c''),
                (''post:0000000000001:d'', example_post 1 ''d'')],
       limit = 3,
       last_cursor = Some ''end'',
       delete_fails = (\<lambda>k. False) \<rparr>"

definition example_ns_many :: "stored namespace" where
  "example_ns_many =
     \<lparr> pairs = map (\<lambda>n. (''post:'' @ nat_digits n, example_post (int n) (nat_digits n))) [101..<151],
       limit = 20,
       last_cursor = None,
       delete_fails = (\<lambda>k. False) \<rparr>"

definition example_ns_raced :: "stored namespace" where
  "example_ns_raced =
     example_ns\<lparr>pairs := filter (\<lambda>p. fst p \<noteq> ''post:0000000000003:b'') (pairs example_ns)\<rparr>"

definition example_ns_failing :: "stored namespace" where
  "example_ns_failing = example_ns\<lparr>delete_fails := (\<lambda>k. k = ''post:0000000000003:b'')\<rparr>"

definition example_empty :: "stored namespace" where
  "example_empty = \<lparr> pairs = [], limit = 2, last_cursor = None, delete_fails = (\<lambda>k. False) \<rparr>"

text \<open>
  An environment with a bound of two posts, and variants of it with other values of
  \<open>MAX_POSTS\<close>; an authorised request for a post with a given timestamp and id, and its
  retry, served one millisecond later.
\<close>

definition example_env :: env where
  "example_env = \<lparr> ADMIN_TOKEN = Some ''s3cret'', UPLOAD_KEY = None, MAX_POSTS = Some ''2'' \<rparr>"

definition example_env_negative :: env where
  "example_env_negative = example_env\<lparr>MAX_POSTS := Some ''-1''\<rparr>"

definition example_env_default :: env where
  "example_env_default = example_env\<lparr>MAX_POSTS := None\<rparr>"

definition example_env_words :: env where
  "example_env_words = example_env\<lparr>MAX_POSTS := Some ''fifty''\<rparr>"


definition example_env_one :: env where
  "example_env_one = example_env\<lparr>MAX_POSTS := Some ''1''\<rparr>"

definition example_body :: "int \<Rightarrow> string \<Rightarrow> post_body" where
  "example_body ts pid =
     \<lparr> body_timestamp = Some ts, body_id = pid, body_image_url = ''https://img.example/'' @ pid,
       body_caption = [], body_author = [], body_retailer = [], body_message_url = [] \<rparr>"

definition example_request :: "int \<Rightarrow> string \<Rightarrow> request" where
  "example_request ts pid =
     \<lparr> authorization = Some ''Bearer s3cret'', json_body = Some (example_body ts pid),
       now = 1700000000000, randomUUID = ''123e4567-e89b-42d3-a456-426614174000'' \<rparr>"


definition example_requests :: "request list" where
  "example_requests = [example_request 5 ''a'', example_request 3 ''b'', example_request 9 ''c'']"

text \<open>Two requests at the end of the 13-digit range of the key, the second one past it, and
  two requests with negative timestamps.\<close>

definition example_late_requests :: "request list" where
  "example_late_requests =
     [example_request 9999999999999 ''a'', example_request 10000000000000 ''b'']"

definition example_early_requests :: "request list" where
  "example_early_requests = [example_request (- 6) ''b'', example_request (- 5) ''a'']"

section \<open>Properties\<close>

subsection \<open>Decimal strings\<close>

lemma digit_char_less:
  assumes "a < 10" "b < 10"
  shows "digit_char a < digit_char b \<longleftrightarrow> a < b"
proof -
  have cases10: "\<And>n::nat. n < 10 \<Longrightarrow> n \<in> {0,1,2,3,4,5,6,7,8,9}" by auto
  from cases10[OF assms(1)] cases10[OF assms(2)] show ?thesis
    by (auto simp: digit_char_def)
qed

lemma digit_char_eq:
  assumes "a < 10" "b < 10"
  shows "digit_char a = digit_char b \<longleftrightarrow> a = b"
  using digit_char_less[OF assms] digit_char_less[OF assms(2,1)]
  by (metis less_irrefl linorder_neqE_nat)

lemma append_less_same_length:
  fixes xs ys :: "'a::linorder list"
  shows "length xs = length ys \<Longrightarrow> xs @ us < ys @ vs \<longleftrightarrow> xs < ys \<or> (xs = ys \<and> us < vs)"
  by (induction xs ys rule: list_induct2) auto

lemma length_fixed_digits [simp]: "length (fixed_digits w n) = w"
  by (induction w arbitrary: n) auto

lemma fixed_digits_zero: "fixed_digits w 0 = replicate w CHR ''0''"
  by (induction w) (auto simp: digit_char_def replicate_append_same)

lemma length_nat_digits_pos: "0 < length (nat_digits n)"
  by (subst nat_digits.simps) simp

lemma padStart_nat_digits:
  "0 < w \<Longrightarrow> n < 10 ^ w \<Longrightarrow> padStart w CHR ''0'' (nat_digits n) = fixed_digits w n"
proof (induction w arbitrary: n)
  case 0
  then show ?case by simp
next
  case (Suc w)
  show ?case
  proof (cases "n < 10")
    case True
    then show ?thesis
      by (simp add: nat_digits.simps[of n] padStart_def fixed_digits_zero)
  next
    case False
    then have w: "0 < w" using Suc.prems by (cases w) auto
    have d: "n div 10 < 10 ^ w" using Suc.prems by (simp add: less_mult_imp_div_less mult.commute)
    have "padStart w CHR ''0'' (nat_digits (n div 10)) = fixed_digits w (n div 10)"
      by (rule Suc.IH[OF w d])
    with False show ?thesis
      by (simp add: nat_digits.simps[of n] padStart_def)
  qed
qed

lemma divmod10_less:
  "(a::nat) < b \<longleftrightarrow> a div 10 < b div 10 \<or> (a div 10 = b div 10 \<and> a mod 10 < b mod 10)"
proof -
  define qa ra qb rb where "qa = a div 10" and "ra = a mod 10" and "qb = b div 10" and "rb = b mod 10"
  have "a = 10 * qa + ra" "b = 10 * qb + rb" "ra < 10" "rb < 10"
    unfolding qa_def ra_def qb_def rb_def by simp_all
  then have "a < b \<longleftrightarrow> qa < qb \<or> (qa = qb \<and> ra < rb)" by arith
  then show ?thesis unfolding qa_def ra_def qb_def rb_def .
qed

lemma fixed_digits_less:
  "a < 10 ^ w \<Longrightarrow> b < 10 ^ w \<Longrightarrow> fixed_digits w a < fixed_digits w b \<longleftrightarrow> a < b"
proof (induction w arbitrary: a b)
  case 0
  then show ?case by simp
next
  case (Suc w)
  have da: "a div 10 < 10 ^ w" and db: "b div 10 < 10 ^ w"
    using Suc.prems by (simp_all add: less_mult_imp_div_less mult.commute)
  have eq: "fixed_digits w (a div 10) = fixed_digits w (b div 10) \<longleftrightarrow> a div 10 = b div 10"
    using Suc.IH[OF da db] Suc.IH[OF db da]
    by (metis less_irrefl linorder_neqE_nat)
  have "fixed_digits (Suc w) a < fixed_digits (Suc w) b \<longleftrightarrow>
        a div 10 < b div 10 \<or> (a div 10 = b div 10 \<and> a mod 10 < b mod 10)"
    by (simp add: append_less_same_length Suc.IH[OF da db] eq digit_char_less)
  also have "\<dots> \<longleftrightarrow> a < b"
    by (rule divmod10_less[symmetric])
  finally show ?case .
qed

lemma fixed_digits_eq:
  "a < 10 ^ w \<Longrightarrow> b < 10 ^ w \<Longrightarrow> fixed_digits w a = fixed_digits w b \<longleftrightarrow> a = b"
  using fixed_digits_less[of a w b] fixed_digits_less[of b w a]
  by (metis less_irrefl linorder_neqE_nat)

lemma tsKey_fixed:
  "0 \<le> t \<Longrightarrow> t < 10 ^ 13 \<Longrightarrow> padStart 13 CHR ''0'' (js_String t) = fixed_digits 13 (nat t)"
proof -
  assume a: "0 \<le> t" "t < 10 ^ 13"
  then have "nat t < 10 ^ 13" by simp
  then show ?thesis using a by (simp add: js_String_def padStart_nat_digits)
qed

subsection \<open>Order of the post keys\<close>

lemma post_key_fixed:
  assumes "0 \<le> t" "t < 10 ^ 13"
  shows "post_key t p u =
         ''post:'' @ fixed_digits 13 (nat t) @ CHR '':'' # (if p \<noteq> [] then p else u)"
  using assms by (simp add: post_key_def tsKey_fixed del: fixed_digits.simps)

lemma post_key_less_ts:
  assumes "0 \<le> ta" "ta < 10 ^ 13" "0 \<le> tb" "tb < 10 ^ 13"
    and "post_key ta ida ua < post_key tb idb ub"
  shows "ta \<le> tb"
proof -
  have na: "nat ta < 10 ^ 13" and nb: "nat tb < 10 ^ 13"
    using assms by simp_all
  from assms(5) have "fixed_digits 13 (nat ta) < fixed_digits 13 (nat tb) \<or>
                      fixed_digits 13 (nat ta) = fixed_digits 13 (nat tb)"
    unfolding post_key_fixed[OF assms(1,2)] post_key_fixed[OF assms(3,4)]
    by (auto simp add: append_less_same_length simp del: fixed_digits.simps)
  then have "nat ta < nat tb \<or> nat ta = nat tb"
    unfolding fixed_digits_less[OF na nb] fixed_digits_eq[OF na nb] .
  with assms(1,3) show ?thesis by auto
qed

text \<open>
  C1 (as amended). For timestamps from \<open>0\<close> to \<open>10^13 - 1\<close>, the ones that fit the 13
  digits the key pads to, the key of one post is lexicographically smaller than the key of
  another if and only if its timestamp is smaller, or the timestamps are equal and its id
  is smaller. The id of the key is the id of the body, or the random UUID when the body
  has none.
\<close>

theorem post_key_order:
  assumes "0 \<le> ta" "ta < 10 ^ 13" "0 \<le> tb" "tb < 10 ^ 13"
  shows "post_key ta ida ua < post_key tb idb ub \<longleftrightarrow>
         ta < tb \<or> (ta = tb \<and> (if ida \<noteq> [] then ida else ua) < (if idb \<noteq> [] then idb else ub))"
proof -
  have na: "nat ta < 10 ^ 13" and nb: "nat tb < 10 ^ 13"
    using assms by simp_all
  have "post_key ta ida ua < post_key tb idb ub \<longleftrightarrow>
        fixed_digits 13 (nat ta) < fixed_digits 13 (nat tb) \<or>
        (fixed_digits 13 (nat ta) = fixed_digits 13 (nat tb) \<and>
         (if ida \<noteq> [] then ida else ua) < (if idb \<noteq> [] then idb else ub))"
    unfolding post_key_fixed[OF assms(1,2)] post_key_fixed[OF assms(3,4)]
    by (simp add: append_less_same_length del: fixed_digits.simps)
  also have "\<dots> \<longleftrightarrow> ta < tb \<or> (ta = tb \<and> (if ida \<noteq> [] then ida else ua) < (if idb \<noteq> [] then idb else ub))"
    using assms by (auto simp add: fixed_digits_less[OF na nb] fixed_digits_eq[OF na nb] simp del: fixed_digits.simps)
  finally show ?thesis .
qed

theorem post_key_order_witness:
  "(0::int) \<le> 1700000000000 \<and> (1700000000000::int) < 10 ^ 13 \<and>
   (0::int) \<le> 1700000000001 \<and> (1700000000001::int) < 10 ^ 13 \<and>
   post_key 1700000000000 ''b'' ''u'' < post_key 1700000000001 ''a'' ''u''"
  using post_key_order [of 1700000000000 1700000000001 "''b''" "''u''" "''a''" "''u''"]
  by simp

text \<open>
  The claim as stated, with timestamps up to \<open>10^13\<close>, fails at \<open>10^13\<close> itself: it has 14
  digits, \<open>padStart(13, "0")\<close> leaves it as it is, and its key sorts before the key of
  \<open>9999999999999\<close>.
\<close>

theorem post_key_order_counterexample:
  "(9999999999999::int) < 10 ^ 13 \<and>
   \<not> post_key 9999999999999 ''a'' ''u'' < post_key (10 ^ 13) ''a'' ''u''"
  by (simp add: post_key_def padStart_def js_String_def nat_digits.simps digit_char_def)

text \<open>The unpadded key of the older worker does not follow the timestamps at all.\<close>

lemma index_post_key_unordered:
  "(9::int) < 10 \<and> \<not> index_post_key 9 ''u'' < index_post_key 10 ''u''"
  by (simp add: index_post_key_def js_String_def nat_digits.simps digit_char_def)

subsection \<open>The listing loops on the namespace\<close>

lemma digit_val_digit_char: "d < 10 \<Longrightarrow> digit_val (digit_char d) = d"
proof -
  have cases10: "\<And>n::nat. n < 10 \<Longrightarrow> n \<in> {0,1,2,3,4,5,6,7,8,9}" by auto
  assume "d < 10"
  from cases10[OF this] show ?thesis
    by (auto simp: digit_char_def digit_val_def)
qed

lemma digits_value_snoc: "digits_value (ds @ [c]) = 10 * digits_value ds + digit_val c"
  by (simp add: digits_value_def)

lemma digits_value_nat_digits: "digits_value (nat_digits n) = n"
proof (induction n rule: nat_digits.induct)
  case (1 n)
  show ?case
  proof (cases "n < 10")
    case True
    then show ?thesis
      by (simp add: nat_digits.simps[of n] digits_value_def digit_val_digit_char)
  next
    case False
    then show ?thesis
      using "1.IH" by (simp add: nat_digits.simps[of n] digits_value_snoc digit_val_digit_char)
  qed
qed

lemma nat_digits_not_Nil: "nat_digits n \<noteq> []"
  by (subst nat_digits.simps) simp

lemma truthy_nat_digits: "truthy (Some (nat_digits n))"
  by (simp add: truthy_def nat_digits_not_Nil)

lemma cursor_offset_nat_digits: "cursor_offset (Some (nat_digits n)) = n"
  by (simp add: cursor_offset_def digits_value_nat_digits)

lemma push_values_append:
  "push_values g (xs @ ys) out = push_values g ys (push_values g xs out)"
  by (induction xs arbitrary: out) (auto split: option.splits)

lemma push_values_present: "push_values g ks out = out @ present g ks"
  by (induction ks arbitrary: out) (auto simp: present_def split: option.splits)

lemma push_vals_append:
  "push_vals g (xs @ ys) out = push_vals g ys (push_vals g xs out)"
  by (induction xs arbitrary: out) (auto split: option.splits)

lemma push_vals_present: "push_vals g ks out = out @ map snd (present g ks)"
  by (induction ks arbitrary: out) (auto simp: present_def split: option.splits)

lemma ns_list_complete:
  "length (prefix_keys ns p) - cursor_offset c \<le> limit ns \<Longrightarrow>
   ns_list ns p c = (drop (cursor_offset c) (prefix_keys ns p), True, last_cursor ns)"
  by (simp add: ns_list_def Let_def)

lemma ns_list_more:
  "\<not> length (prefix_keys ns p) - cursor_offset c \<le> limit ns \<Longrightarrow>
   ns_list ns p c = (take (limit ns) (drop (cursor_offset c) (prefix_keys ns p)), False,
                     Some (nat_digits (cursor_offset c + limit ns)))"
  by (simp add: ns_list_def Let_def)

lemma listKV_loop_ns_list:
  assumes "0 < limit ns"
  shows "listKV_loop (ns_list ns) g p c out =
         Some (out @ present g (drop (cursor_offset c) (prefix_keys ns p)))"
proof (induction "length (prefix_keys ns p) - cursor_offset c" arbitrary: c out rule: less_induct)
  case less
  let ?ks = "prefix_keys ns p"
  let ?off = "cursor_offset c"
  show ?case
  proof (cases "length ?ks - ?off \<le> limit ns")
    case True
    show ?thesis
      by (subst listKV_loop.simps) (simp add: ns_list_complete[OF True] truthy_def push_values_present)
  next
    case False
    let ?c' = "Some (nat_digits (?off + limit ns))"
    have dec: "length ?ks - cursor_offset ?c' < length ?ks - ?off"
      using False assms by (simp add: cursor_offset_nat_digits)
    have split: "take (limit ns) (drop ?off ?ks) @ drop (?off + limit ns) ?ks = drop ?off ?ks"
      by (metis add.commute append_take_drop_id drop_drop)
    have "listKV_loop (ns_list ns) g p c out =
          listKV_loop (ns_list ns) g p ?c' (push_values g (take (limit ns) (drop ?off ?ks)) out)"
      by (subst listKV_loop.simps) (simp add: ns_list_more[OF False] truthy_nat_digits)
    also have "\<dots> = Some (push_values g (take (limit ns) (drop ?off ?ks)) out @
                         present g (drop (?off + limit ns) ?ks))"
      using less[OF dec] by (simp add: cursor_offset_nat_digits)
    also have "\<dots> = Some (out @ present g (drop ?off ?ks))"
      by (metis push_values_present push_values_append split)
    finally show ?thesis .
  qed
qed

lemma trim_names_loop_ns_list:
  assumes "0 < limit ns"
  shows "trim_names_loop (ns_list ns) p c names =
         Some (names @ drop (cursor_offset c) (prefix_keys ns p))"
proof (induction "length (prefix_keys ns p) - cursor_offset c" arbitrary: c names rule: less_induct)
  case less
  let ?ks = "prefix_keys ns p"
  let ?off = "cursor_offset c"
  show ?case
  proof (cases "length ?ks - ?off \<le> limit ns")
    case True
    show ?thesis
      by (subst trim_names_loop.simps) (simp add: ns_list_complete[OF True] truthy_def)
  next
    case False
    let ?c' = "Some (nat_digits (?off + limit ns))"
    have dec: "length ?ks - cursor_offset ?c' < length ?ks - ?off"
      using False assms by (simp add: cursor_offset_nat_digits)
    have split: "take (limit ns) (drop ?off ?ks) @ drop (?off + limit ns) ?ks = drop ?off ?ks"
      by (metis add.commute append_take_drop_id drop_drop)
    have "trim_names_loop (ns_list ns) p c names =
          trim_names_loop (ns_list ns) p ?c' (names @ take (limit ns) (drop ?off ?ks))"
      by (subst trim_names_loop.simps) (simp add: ns_list_more[OF False] truthy_nat_digits)
    also have "\<dots> = Some ((names @ take (limit ns) (drop ?off ?ks)) @ drop (?off + limit ns) ?ks)"
      using less[OF dec] by (simp add: cursor_offset_nat_digits)
    also have "\<dots> = Some (names @ drop ?off ?ks)"
      using split by simp
    finally show ?thesis .
  qed
qed

lemma index_listKV_loop_ns_list:
  assumes "0 < limit ns"
  shows "index_listKV_loop (ns_list ns) g p c out =
         Some (out @ map snd (present g (drop (cursor_offset c) (prefix_keys ns p))))"
proof (induction "length (prefix_keys ns p) - cursor_offset c" arbitrary: c out rule: less_induct)
  case less
  let ?ks = "prefix_keys ns p"
  let ?off = "cursor_offset c"
  show ?case
  proof (cases "length ?ks - ?off \<le> limit ns")
    case True
    show ?thesis
      by (subst index_listKV_loop.simps) (simp add: ns_list_complete[OF True] push_vals_present)
  next
    case False
    let ?c' = "Some (nat_digits (?off + limit ns))"
    have dec: "length ?ks - cursor_offset ?c' < length ?ks - ?off"
      using False assms by (simp add: cursor_offset_nat_digits)
    have split: "take (limit ns) (drop ?off ?ks) @ drop (?off + limit ns) ?ks = drop ?off ?ks"
      by (metis add.commute append_take_drop_id drop_drop)
    have "index_listKV_loop (ns_list ns) g p c out =
          index_listKV_loop (ns_list ns) g p ?c' (push_vals g (take (limit ns) (drop ?off ?ks)) out)"
      by (subst index_listKV_loop.simps) (simp add: ns_list_more[OF False] truthy_nat_digits)
    also have "\<dots> = Some (push_vals g (take (limit ns) (drop ?off ?ks)) out @
                         map snd (present g (drop (?off + limit ns) ?ks)))"
      using less[OF dec] by (simp add: cursor_offset_nat_digits)
    also have "\<dots> = Some (out @ map snd (present g (drop ?off ?ks)))"
      by (metis push_vals_present push_vals_append split)
    finally show ?thesis .
  qed
qed

subsection \<open>The keys that the trim deletes\<close>

lemma distinct_kv_keys: "distinct (kv_keys ps)"
  by (simp add: kv_keys_def)

lemma set_kv_keys: "set (kv_keys ps) = fst ` set ps"
  by (simp add: kv_keys_def)

lemma distinct_prefix_keys: "distinct (prefix_keys ns p)"
  by (simp add: prefix_keys_def distinct_kv_keys)

lemma set_prefix_keys: "set (prefix_keys ns p) = {k. prefix p k \<and> ns_get ns k \<noteq> None}"
  by (auto simp: prefix_keys_def set_kv_keys ns_get_def map_of_eq_None_iff)

lemma set_sorted_names [simp]: "set (sorted_names ns p) = set (prefix_keys ns p)"
  by (simp add: sorted_names_def)

lemma length_sorted_names [simp]: "length (sorted_names ns p) = length (prefix_keys ns p)"
  by (simp add: sorted_names_def)

lemma sorted_sorted_names: "sorted (sorted_names ns p)"
  by (simp add: sorted_names_def)

lemma distinct_sorted_names: "distinct (sorted_names ns p)"
  by (simp add: sorted_names_def distinct_prefix_keys)

lemma strict_sorted_names: "sorted_wrt (<) (sorted_names ns p)"
  by (simp add: strict_sorted_iff sorted_sorted_names distinct_sorted_names)

lemma trimPosts_toDelete:
  assumes "0 < limit ns"
  shows "trimPosts ns p mx = Some (delete_all ns (toDelete ns p mx))"
  by (simp add: trimPosts_def trim_names_loop_ns_list[OF assms] cursor_offset_def
      sorted_names_def toDelete_def Let_def split: option.splits)

lemma set_toDelete: "set (toDelete ns p mx) \<subseteq> set (prefix_keys ns p)"
proof -
  have "set (toDelete ns p mx) \<subseteq> set (sorted_names ns p)"
    by (auto simp: toDelete_def slice0_def Let_def dest: in_set_takeD split: option.splits)
  then show ?thesis by simp
qed

lemma toDelete_nat:
  "toDelete ns p (Some (int m)) = take (length (prefix_keys ns p) - m) (sorted_names ns p)"
  by (auto simp: toDelete_def slice0_def Let_def min_def nat_diff_distrib')

lemma delete_all_eq:
  "delete_all ns ds =
     (if \<exists>d\<in>set ds. delete_fails ns d then Rejected else Fulfilled,
      ns\<lparr>pairs := filter (\<lambda>q. \<not> (fst q \<in> set ds \<and> \<not> delete_fails ns (fst q))) (pairs ns)\<rparr>)"
proof (induction ds arbitrary: ns)
  case Nil
  then show ?case by simp
next
  case (Cons d ds)
  show ?case
  proof (cases "delete_fails ns d")
    case True
    have "filter (\<lambda>q. \<not> (fst q \<in> set ds \<and> \<not> delete_fails ns (fst q))) (pairs ns) =
          filter (\<lambda>q. \<not> (fst q \<in> set (d # ds) \<and> \<not> delete_fails ns (fst q))) (pairs ns)"
      using True by (intro filter_cong) auto
    with True show ?thesis
      by (simp add: ns_delete_def Cons.IH)
  next
    case False
    have "filter (\<lambda>q. \<not> (fst q \<in> set ds \<and> \<not> delete_fails ns (fst q)))
            (filter (\<lambda>q. fst q \<noteq> d) (pairs ns)) =
          filter (\<lambda>q. \<not> (fst q \<in> set (d # ds) \<and> \<not> delete_fails ns (fst q))) (pairs ns)"
      using False unfolding filter_filter by (intro filter_cong) auto
    with False show ?thesis
      by (simp add: ns_delete_def Cons.IH)
  qed
qed

subsection \<open>The paginated scan\<close>

lemma example_keys:
  "prefix_keys example_ns ''post:'' =
     [''post:0000000000001:d'', ''post:0000000000003:b'', ''post:0000000000005:a'',
      ''post:0000000000009:c'']"
  by (simp add: prefix_keys_def kv_keys_def example_ns_def)

lemma listKV_loop_stops:
  "list_fn p c = (keys, True, nxt) \<Longrightarrow>
   listKV_loop list_fn g p c out = Some (push_values g keys out)"
  by (subst listKV_loop.simps) (simp add: truthy_def)

lemma listKV_loop_continues:
  "list_fn p c = (keys, False, Some c') \<Longrightarrow> c' \<noteq> [] \<Longrightarrow>
   listKV_loop list_fn g p c out = listKV_loop list_fn g p (Some c') (push_values g keys out)"
  by (subst listKV_loop.simps) (simp add: truthy_def)

lemma index_listKV_loop_stops:
  "list_fn p c = (keys, True, nxt) \<Longrightarrow>
   index_listKV_loop list_fn g p c out = Some (push_vals g keys out)"
  by (subst index_listKV_loop.simps) simp

lemma index_listKV_loop_continues:
  "list_fn p c = (keys, False, Some c') \<Longrightarrow> c' \<noteq> [] \<Longrightarrow>
   index_listKV_loop list_fn g p c out =
     index_listKV_loop list_fn g p (Some c') (push_vals g keys out)"
  by (subst index_listKV_loop.simps) (simp add: truthy_def)

lemma ns_list_example_first:
  "ns_list example_ns ''post:'' None =
     ([''post:0000000000001:d'', ''post:0000000000003:b'', ''post:0000000000005:a''],
      False, Some ''3'')"
  unfolding ns_list_def example_keys
  by (simp add: cursor_offset_def example_ns_def nat_digits.simps digit_char_def)

lemma ns_list_example_second:
  "ns_list example_ns ''post:'' (Some ''3'') = ([''post:0000000000009:c''], True, Some ''end'')"
  unfolding ns_list_def example_keys
  by (simp add: cursor_offset_def example_ns_def digits_value_def digit_val_def)

text \<open>
  C3. Whatever the batch size of the service (at least one key per call) and whatever
  cursor it returns together with the completion flag, the scan returns, and its result
  holds exactly the records stored under the prefix, each key once, none missing; the scan
  of the older worker returns the values of the same records. Moreover, for every \<open>list\<close>
  function: a batch with the completion flag ends the loop, whatever cursor comes with it;
  and after a batch without the flag and with a cursor, the loop goes on with a call that
  gets the prefix and that cursor.
\<close>

theorem listKV_complete:
  assumes "0 < limit ns"
  shows "(\<exists>items. listKV ns p = Some items \<and>
            distinct (map fst items) \<and>
            set items = {(k, v). prefix p k \<and> ns_get ns k = Some v} \<and>
            length items = card {k. prefix p k \<and> ns_get ns k \<noteq> None} \<and>
            index_listKV ns p = Some (map snd items)) \<and>
         (\<forall>list_fn g c keys nxt out vals.
            list_fn p c = (keys, True, nxt) \<longrightarrow>
              listKV_loop list_fn g p c out = Some (push_values g keys out) \<and>
              index_listKV_loop list_fn g p c vals = Some (push_vals g keys vals)) \<and>
         (\<forall>list_fn g c keys c' out vals.
            list_fn p c = (keys, False, Some c') \<and> c' \<noteq> [] \<longrightarrow>
              listKV_loop list_fn g p c out =
                listKV_loop list_fn g p (Some c') (push_values g keys out) \<and>
              index_listKV_loop list_fn g p c vals =
                index_listKV_loop list_fn g p (Some c') (push_vals g keys vals))"
proof -
  let ?ks = "prefix_keys ns p"
  let ?items = "present (ns_get ns) ?ks"
  have all: "filter (\<lambda>k. ns_get ns k \<noteq> None) ?ks = ?ks"
    by (rule filter_True) (simp add: set_prefix_keys)
  have fst: "map fst ?items = ?ks"
    unfolding present_def all by (simp add: comp_def)
  have 1: "listKV ns p = Some ?items"
    by (simp add: listKV_def listKV_loop_ns_list[OF assms] cursor_offset_def)
  have 2: "distinct (map fst ?items)"
    by (simp add: fst distinct_prefix_keys)
  have 3: "set ?items = {(k, v). prefix p k \<and> ns_get ns k = Some v}"
    by (auto simp: present_def set_prefix_keys)
  have "length ?items = length ?ks"
    by (metis fst length_map)
  also have "\<dots> = card (set ?ks)"
    by (simp add: distinct_card distinct_prefix_keys)
  finally have 4: "length ?items = card {k. prefix p k \<and> ns_get ns k \<noteq> None}"
    by (simp add: set_prefix_keys)
  have 5: "index_listKV ns p = Some (map snd ?items)"
    by (simp add: index_listKV_def index_listKV_loop_ns_list[OF assms] cursor_offset_def)
  have 6: "\<forall>list_fn g c keys nxt out vals.
            list_fn p c = (keys, True, nxt) \<longrightarrow>
              listKV_loop list_fn g p c out = Some (push_values g keys out) \<and>
              index_listKV_loop list_fn g p c vals = Some (push_vals g keys vals)"
    by (simp add: listKV_loop_stops index_listKV_loop_stops)
  have 7: "\<forall>list_fn g c keys c' out vals.
            list_fn p c = (keys, False, Some c') \<and> c' \<noteq> [] \<longrightarrow>
              listKV_loop list_fn g p c out =
                listKV_loop list_fn g p (Some c') (push_values g keys out) \<and>
              index_listKV_loop list_fn g p c vals =
                index_listKV_loop list_fn g p (Some c') (push_vals g keys vals)"
    by (simp add: listKV_loop_continues index_listKV_loop_continues)
  show ?thesis
    by (intro conjI exI[of _ ?items]) (rule 1 2 3 4 5 6 7)+
qed

theorem listKV_complete_witness:
  "0 < limit example_ns \<and> limit example_ns < length (prefix_keys example_ns ''post:'') \<and>
   (\<exists>items. listKV example_ns ''post:'' = Some items \<and>
           distinct (map fst items) \<and>
           set items = {(k, v). prefix ''post:'' k \<and> ns_get example_ns k = Some v} \<and>
           length items = card {k. prefix ''post:'' k \<and> ns_get example_ns k \<noteq> None} \<and>
           index_listKV example_ns ''post:'' = Some (map snd items)) \<and>
   ns_list example_ns ''post:'' None =
     ([''post:0000000000001:d'', ''post:0000000000003:b'', ''post:0000000000005:a''],
      False, Some ''3'') \<and>
   listKV_loop (ns_list example_ns) (ns_get example_ns) ''post:'' None [] =
     listKV_loop (ns_list example_ns) (ns_get example_ns) ''post:'' (Some ''3'')
       (push_values (ns_get example_ns)
          [''post:0000000000001:d'', ''post:0000000000003:b'', ''post:0000000000005:a''] []) \<and>
   ns_list example_ns ''post:'' (Some ''3'') =
     ([''post:0000000000009:c''], True, Some ''end'') \<and>
   listKV_loop (ns_list example_ns) (ns_get example_ns) ''post:'' (Some ''3'') [] =
     Some [(''post:0000000000009:c'', example_post 9 ''c'')]"
proof -
  have l: "0 < limit example_ns" by (simp add: example_ns_def)
  have m: "limit example_ns < length (prefix_keys example_ns ''post:'')"
    unfolding example_keys by (simp add: example_ns_def)
  note t = listKV_complete [OF l, of "''post:''"]
  note t1 = t[THEN conjunct1]
  note stop = t[THEN conjunct2, THEN conjunct1, rule_format]
  note cont = t[THEN conjunct2, THEN conjunct2, rule_format]
  have c: "listKV_loop (ns_list example_ns) (ns_get example_ns) ''post:'' None [] =
     listKV_loop (ns_list example_ns) (ns_get example_ns) ''post:'' (Some ''3'')
       (push_values (ns_get example_ns)
          [''post:0000000000001:d'', ''post:0000000000003:b'', ''post:0000000000005:a''] [])"
    by (rule cont[THEN conjunct1]) (simp add: ns_list_example_first)
  have "listKV_loop (ns_list example_ns) (ns_get example_ns) ''post:'' (Some ''3'') [] =
     Some (push_values (ns_get example_ns) [''post:0000000000009:c''] [])"
    by (rule stop[THEN conjunct1]) (rule ns_list_example_second)
  then have s: "listKV_loop (ns_list example_ns) (ns_get example_ns) ''post:'' (Some ''3'') [] =
     Some [(''post:0000000000009:c'', example_post 9 ''c'')]"
    by (simp add: ns_get_def example_ns_def)
  from l m t1 ns_list_example_first c ns_list_example_second s show ?thesis
    by (intro conjI)
qed

text \<open>
  C8. The values are fetched after the keys were listed, so a fetch may find a listed key
  gone: \<open>g\<close> is the \<open>get\<close> of the namespace as it is when the values are fetched, which
  need not be the state that was listed. The scan still returns, with the records of the
  listed keys whose value is present, in order; the absent ones are skipped.
\<close>

theorem listKV_skips_absent:
  assumes "0 < limit ns"
  shows "listKV_loop (ns_list ns) g p None [] = Some (present g (prefix_keys ns p)) \<and>
         index_listKV_loop (ns_list ns) g p None [] =
           Some (map snd (present g (prefix_keys ns p))) \<and>
         map fst (present g (prefix_keys ns p)) = filter (\<lambda>k. g k \<noteq> None) (prefix_keys ns p)"
  by (simp add: listKV_loop_ns_list[OF assms] index_listKV_loop_ns_list[OF assms]
      cursor_offset_def present_def comp_def)

theorem listKV_skips_absent_witness:
  "0 < limit example_ns \<and>
   ns_get example_ns ''post:0000000000003:b'' \<noteq> None \<and>
   ns_delete example_ns ''post:0000000000003:b'' = Some example_ns_raced \<and>
   ns_get example_ns_raced ''post:0000000000003:b'' = None \<and>
   listKV_loop (ns_list example_ns) (ns_get example_ns_raced) ''post:'' None [] =
     Some [(''post:0000000000001:d'', example_post 1 ''d''),
           (''post:0000000000005:a'', example_post 5 ''a''),
           (''post:0000000000009:c'', example_post 9 ''c'')] \<and>
   index_listKV_loop (ns_list example_ns) (ns_get example_ns_raced) ''post:'' None [] =
     Some [example_post 1 ''d'', example_post 5 ''a'', example_post 9 ''c'']"
proof -
  have l: "0 < limit example_ns" by (simp add: example_ns_def)
  have g: "present (ns_get example_ns_raced) (prefix_keys example_ns ''post:'') =
     [(''post:0000000000001:d'', example_post 1 ''d''),
      (''post:0000000000005:a'', example_post 5 ''a''),
      (''post:0000000000009:c'', example_post 9 ''c'')]"
    unfolding example_keys present_def
    by (simp add: ns_get_def example_ns_raced_def example_ns_def)
  show ?thesis
    using listKV_skips_absent [OF l, of "ns_get example_ns_raced" "''post:''"]
    by (simp add: g) (simp add: ns_get_def ns_delete_def example_ns_raced_def example_ns_def)
qed

subsection \<open>The trim\<close>

lemma map_of_filter_fst:
  "map_of (filter (\<lambda>q. P (fst q)) ps) k = (if P k then map_of ps k else None)"
  by (induction ps) auto

lemma kv_keys_filter_fst:
  "kv_keys (filter (\<lambda>q. P (fst q)) ps) = filter P (kv_keys ps)"
proof -
  have "map fst (filter (\<lambda>q. P (fst q)) ps) = filter P (map fst ps)"
    by (simp add: filter_map comp_def)
  then show ?thesis
    by (simp add: kv_keys_def remdups_filter)
qed

lemma ns_get_delete_all:
  "ns_get (snd (delete_all ns ds)) k =
     (if k \<in> set ds \<and> \<not> delete_fails ns k then None else ns_get ns k)"
  using map_of_filter_fst[of "\<lambda>k. \<not> (k \<in> set ds \<and> \<not> delete_fails ns k)" "pairs ns" k]
  by (simp add: delete_all_eq ns_get_def)

lemma prefix_keys_delete_all:
  "prefix_keys (snd (delete_all ns ds)) p =
     filter (\<lambda>k. \<not> (k \<in> set ds \<and> \<not> delete_fails ns k)) (prefix_keys ns p)"
proof -
  have "prefix_keys (snd (delete_all ns ds)) p =
        filter (prefix p) (filter (\<lambda>k. \<not> (k \<in> set ds \<and> \<not> delete_fails ns k)) (kv_keys (pairs ns)))"
    using kv_keys_filter_fst[of "\<lambda>k. \<not> (k \<in> set ds \<and> \<not> delete_fails ns k)" "pairs ns"]
    by (simp add: delete_all_eq prefix_keys_def)
  also have "\<dots> = filter (\<lambda>k. \<not> (k \<in> set ds \<and> \<not> delete_fails ns k)) (prefix_keys ns p)"
    by (simp add: prefix_keys_def conj_commute)
  finally show ?thesis .
qed

lemma fst_delete_all:
  "fst (delete_all ns ds) = (if \<exists>d\<in>set ds. delete_fails ns d then Rejected else Fulfilled)"
  by (simp add: delete_all_eq)

lemma filter_notin_take:
  "distinct xs \<Longrightarrow> filter (\<lambda>k. k \<notin> set (take j xs)) xs = drop j xs"
proof -
  assume d: "distinct xs"
  have "filter (\<lambda>k. k \<notin> set (take j xs)) xs =
        filter (\<lambda>k. k \<notin> set (take j xs)) (take j xs) @
        filter (\<lambda>k. k \<notin> set (take j xs)) (drop j xs)"
    by (metis append_take_drop_id filter_append)
  moreover have "filter (\<lambda>k. k \<notin> set (take j xs)) (take j xs) = []" by simp
  moreover have "filter (\<lambda>k. k \<notin> set (take j xs)) (drop j xs) = drop j xs"
    using d by (intro filter_True) (metis append_take_drop_id disjoint_iff distinct_append)
  ultimately show ?thesis by simp
qed

lemma take_less_drop:
  fixes xs :: "'a::linorder list"
  assumes "sorted_wrt (<) xs"
  shows "\<forall>d\<in>set (take j xs). \<forall>k\<in>set (drop j xs). d < k"
proof -
  have "sorted_wrt (<) (take j xs @ drop j xs)" using assms by simp
  then show ?thesis unfolding sorted_wrt_append by blast
qed

text \<open>
  C5. For a size bound \<open>m \<ge> 0\<close> and a service whose deletes succeed, in whatever order
  the service lists the keys, \<open>trimPosts\<close> returns; the names it works on are all the keys
  under the prefix; it deletes exactly the first \<open>count - m\<close> of them in ascending order,
  so that every deleted key is smaller than every key left, and every other key keeps its
  value; the keys left under the prefix are the last \<open>m\<close> in ascending order, listed in
  the order they had; when \<open>count \<le> m\<close> the namespace is unchanged; and with \<open>m = 0\<close> no
  key is left under the prefix.
\<close>

theorem trimPosts_deletes_oldest:
  assumes "0 < limit ns" and "\<forall>k. \<not> delete_fails ns k"
  shows "\<exists>ns'. trimPosts ns p (Some (int m)) = Some (Fulfilled, ns') \<and>
     set (prefix_keys ns p) = {k. prefix p k \<and> ns_get ns k \<noteq> None} \<and>
     (\<forall>k. ns_get ns' k =
        (if k \<in> set (take (length (prefix_keys ns p) - m) (sort (prefix_keys ns p))) then None
         else ns_get ns k)) \<and>
     (\<forall>d\<in>set (take (length (prefix_keys ns p) - m) (sort (prefix_keys ns p))).
        \<forall>k\<in>set (prefix_keys ns' p). d < k) \<and>
     prefix_keys ns' p =
       filter (\<lambda>k. k \<notin> set (take (length (prefix_keys ns p) - m) (sort (prefix_keys ns p))))
         (prefix_keys ns p) \<and>
     sort (prefix_keys ns' p) = drop (length (prefix_keys ns p) - m) (sort (prefix_keys ns p)) \<and>
     length (prefix_keys ns' p) = min m (length (prefix_keys ns p)) \<and>
     (length (prefix_keys ns p) \<le> m \<longrightarrow> ns' = ns) \<and>
     (m = 0 \<longrightarrow> prefix_keys ns' p = [])"
proof -
  let ?listed = "prefix_keys ns p"
  let ?names = "sort ?listed"
  let ?j = "length ?listed - m"
  let ?del = "take ?j ?names"
  let ?res = "delete_all ns ?del"
  have sn: "sorted_wrt (<) ?names"
    using strict_sorted_names[of ns p] by (simp add: sorted_names_def)
  have t: "trimPosts ns p (Some (int m)) = Some ?res"
    by (simp add: trimPosts_toDelete[OF assms(1)] toDelete_nat sorted_names_def)
  have f: "fst ?res = Fulfilled"
    using assms(2) by (simp add: fst_delete_all)
  have 1: "trimPosts ns p (Some (int m)) = Some (Fulfilled, snd ?res)"
    using t f by (metis prod.collapse)
  have 2: "\<forall>k. ns_get (snd ?res) k = (if k \<in> set ?del then None else ns_get ns k)"
    using assms(2) by (simp add: ns_get_delete_all)
  have 4: "prefix_keys (snd ?res) p = filter (\<lambda>k. k \<notin> set ?del) ?listed"
    using assms(2) by (simp add: prefix_keys_delete_all)
  have "sort (filter (\<lambda>k. k \<notin> set ?del) ?listed) = filter (\<lambda>k. k \<notin> set ?del) ?names"
    by (rule sorted_distinct_set_unique)
       (simp_all add: distinct_prefix_keys sorted_wrt_filter)
  also have "\<dots> = drop ?j ?names"
    by (rule filter_notin_take) (simp add: distinct_prefix_keys)
  finally have 5: "sort (prefix_keys (snd ?res) p) = drop ?j ?names"
    unfolding 4 .
  have "set (prefix_keys (snd ?res) p) = set (drop ?j ?names)"
    using 5 by (metis set_sort)
  then have 3: "\<forall>d\<in>set ?del. \<forall>k\<in>set (prefix_keys (snd ?res) p). d < k"
    using take_less_drop[OF sn, of ?j] by simp
  have "length (prefix_keys (snd ?res) p) = length (drop ?j ?names)"
    using 5 by (metis length_sort)
  then have 6: "length (prefix_keys (snd ?res) p) = min m (length ?listed)"
    by simp
  have 7: "length ?listed \<le> m \<longrightarrow> snd ?res = ns"
    by simp
  have 8: "m = 0 \<longrightarrow> prefix_keys (snd ?res) p = []"
  proof
    assume "m = 0"
    with 6 have "length (prefix_keys (snd ?res) p) = 0" by simp
    then show "prefix_keys (snd ?res) p = []" by simp
  qed
  show ?thesis
    by (intro exI[of _ "snd ?res"] conjI)
       (rule 1 set_prefix_keys 2 3 4 5 6 7 8)+
qed

lemma example_unsorted_keys:
  "prefix_keys example_ns_unsorted ''post:'' =
     [''post:0000000000005:a'', ''post:0000000000003:b'', ''post:0000000000009:c'',
      ''post:0000000000001:d'']"
  by (simp add: prefix_keys_def kv_keys_def example_ns_unsorted_def)

lemma example_unsorted_sort:
  "sort [''post:0000000000005:a'', ''post:0000000000003:b'', ''post:0000000000009:c'',
         ''post:0000000000001:d''] =
     [''post:0000000000001:d'', ''post:0000000000003:b'', ''post:0000000000005:a'',
      ''post:0000000000009:c'']"
  by simp

text \<open>
  The service lists the four keys of \<open>example_ns_unsorted\<close> in the order 5, 3, 9, 1. With a
  bound of one the trim deletes 1, 3 and 5, the three smallest, and keeps 9, which is
  among the first three listed.
\<close>

theorem trimPosts_deletes_oldest_witness:
  "0 < limit example_ns_unsorted \<and> (\<forall>k. \<not> delete_fails example_ns_unsorted k) \<and>
   take 3 (prefix_keys example_ns_unsorted ''post:'') =
     [''post:0000000000005:a'', ''post:0000000000003:b'', ''post:0000000000009:c''] \<and>
   (\<exists>ns'. trimPosts example_ns_unsorted ''post:'' (Some (int 1)) = Some (Fulfilled, ns') \<and>
      prefix_keys ns' ''post:'' = [''post:0000000000009:c''] \<and>
      ns_get ns' ''post:0000000000001:d'' = None \<and>
      ns_get ns' ''post:0000000000003:b'' = None \<and>
      ns_get ns' ''post:0000000000005:a'' = None \<and>
      ns_get ns' ''post:0000000000009:c'' = Some (example_post 9 ''c'') \<and>
      ns_get ns' ''stats:current'' = ns_get example_ns_unsorted ''stats:current'')"
proof -
  have l: "0 < limit example_ns_unsorted" and d: "\<forall>k. \<not> delete_fails example_ns_unsorted k"
    by (simp_all add: example_ns_unsorted_def)
  have k3: "take 3 (prefix_keys example_ns_unsorted ''post:'') =
     [''post:0000000000005:a'', ''post:0000000000003:b'', ''post:0000000000009:c'']"
    unfolding example_unsorted_keys by simp
  from trimPosts_deletes_oldest [OF l d, of "''post:''" 1,
      unfolded example_unsorted_keys example_unsorted_sort]
  obtain ns' where
    t: "trimPosts example_ns_unsorted ''post:'' (Some (int 1)) = Some (Fulfilled, ns')" and
    g: "\<forall>k. ns_get ns' k =
          (if k \<in> set (take (length [''post:0000000000005:a'', ''post:0000000000003:b'',
                                      ''post:0000000000009:c'', ''post:0000000000001:d''] - 1)
                          [''post:0000000000001:d'', ''post:0000000000003:b'',
                           ''post:0000000000005:a'', ''post:0000000000009:c''])
           then None else ns_get example_ns_unsorted k)" and
    p: "prefix_keys ns' ''post:'' =
          filter (\<lambda>k. k \<notin> set (take (length [''post:0000000000005:a'', ''post:0000000000003:b'',
                                      ''post:0000000000009:c'', ''post:0000000000001:d''] - 1)
                          [''post:0000000000001:d'', ''post:0000000000003:b'',
                           ''post:0000000000005:a'', ''post:0000000000009:c'']))
            [''post:0000000000005:a'', ''post:0000000000003:b'',
             ''post:0000000000009:c'', ''post:0000000000001:d'']"
    by (elim exE conjE) (rule that; assumption)
  have p': "prefix_keys ns' ''post:'' = [''post:0000000000009:c'']"
    using p by simp
  have g1: "ns_get ns' ''post:0000000000001:d'' = None"
    and g3: "ns_get ns' ''post:0000000000003:b'' = None"
    and g5: "ns_get ns' ''post:0000000000005:a'' = None"
    and g9: "ns_get ns' ''post:0000000000009:c'' = Some (example_post 9 ''c'')"
    and gs: "ns_get ns' ''stats:current'' = ns_get example_ns_unsorted ''stats:current''"
    using g by (simp_all add: ns_get_def example_ns_unsorted_def)
  show ?thesis
    by (intro conjI exI[of _ ns']) (rule l d k3 t p' g1 g3 g5 g9 gs)+
qed

subsection \<open>The write and the trim of \<open>POST /posts\<close>\<close>

lemma replicate_numeral: "replicate (numeral k) x = x # replicate (pred_numeral k) x"
  by (simp add: numeral_eq_Suc)

lemma limit_ns_put [simp]: "limit (ns_put ns k v) = limit ns"
  by (simp add: ns_put_def)

lemma delete_fails_ns_put [simp]: "delete_fails (ns_put ns k v) = delete_fails ns"
  by (simp add: ns_put_def)

lemma map_of_put_pair: "map_of (put_pair k v ps) k' = (if k' = k then Some v else map_of ps k')"
  by (induction ps) auto

lemma ns_get_ns_put: "ns_get (ns_put ns k v) k' = (if k' = k then Some v else ns_get ns k')"
  by (simp add: ns_get_def ns_put_def map_of_put_pair)

lemma prefix_post_key: "prefix ''post:'' (post_key ts pid uuid)"
  by (simp add: post_key_def Let_def)

lemma posts_post_accepted:
  assumes "isAuthed e req" "json_body req = Some b" "body_image_url b \<noteq> []" "0 < limit ns"
  shows "posts_post e req ns =
     Some (if \<exists>d\<in>set (toDelete (ns_put ns (post_key (post_ts b (now req)) (body_id b) (randomUUID req))
                                      (Post (post_item_of b (post_ts b (now req))))) ''post:'' (max_posts e)).
               delete_fails ns d
           then Uncaught
           else Ok_key (post_key (post_ts b (now req)) (body_id b) (randomUUID req)),
           snd (delete_all (ns_put ns (post_key (post_ts b (now req)) (body_id b) (randomUUID req))
                                      (Post (post_item_of b (post_ts b (now req)))))
                  (toDelete (ns_put ns (post_key (post_ts b (now req)) (body_id b) (randomUUID req))
                                      (Post (post_item_of b (post_ts b (now req))))) ''post:'' (max_posts e))))"
proof -
  let ?key = "post_key (post_ts b (now req)) (body_id b) (randomUUID req)"
  let ?ns1 = "ns_put ns ?key (Post (post_item_of b (post_ts b (now req))))"
  let ?td = "toDelete ?ns1 ''post:'' (max_posts e)"
  have l: "0 < limit ?ns1" using assms(4) by simp
  have t: "trimPosts ?ns1 ''post:'' (max_posts e) = Some (delete_all ?ns1 ?td)"
    by (rule trimPosts_toDelete[OF l])
  have "posts_post e req ns =
        (case delete_all ?ns1 ?td of (Rejected, ns2) \<Rightarrow> Some (Uncaught, ns2)
                                   | (Fulfilled, ns2) \<Rightarrow> Some (Ok_key ?key, ns2))"
    using assms(1,2,3) by (simp add: posts_post_def Let_def t)
  also have "\<dots> = Some (if fst (delete_all ?ns1 ?td) = Rejected then Uncaught else Ok_key ?key,
                         snd (delete_all ?ns1 ?td))"
    by (cases "delete_all ?ns1 ?td"; cases "fst (delete_all ?ns1 ?td)") auto
  finally show ?thesis
    by (simp add: fst_delete_all)
qed

lemma posts_post_refused:
  assumes "\<not> (isAuthed e req \<and> (\<exists>b. json_body req = Some b \<and> body_image_url b \<noteq> []))"
  shows "\<exists>r. posts_post e req ns = Some (r, ns)"
  using assms by (auto simp: posts_post_def split: option.splits)

lemma ns_get_trim_other:
  assumes "\<not> prefix p k"
  shows "ns_get (snd (delete_all ns (toDelete ns p mx))) k = ns_get ns k"
proof -
  have "k \<notin> set (toDelete ns p mx)"
    using set_toDelete[of ns p mx] assms by (auto simp: set_prefix_keys)
  then show ?thesis by (simp add: ns_get_delete_all)
qed

text \<open>
  C10. \<open>trimPosts\<close>, for every bound (\<open>NaN\<close> and negative ones included) and whichever
  deletes fail, changes only keys that start with its prefix, and what it changes it
  deletes. \<open>POST /posts\<close>, for every request, leaves every key outside \<open>post:\<close> as it was.
\<close>

theorem trim_and_append_keep_other_keys:
  assumes "0 < limit ns"
  shows "(\<exists>r ns'. trimPosts ns p mx = Some (r, ns') \<and>
            (\<forall>k. \<not> prefix p k \<longrightarrow> ns_get ns' k = ns_get ns k) \<and>
            (\<forall>k. ns_get ns' k \<noteq> ns_get ns k \<longrightarrow> prefix p k \<and> ns_get ns' k = None)) \<and>
         (\<exists>r ns'. posts_post e req ns = Some (r, ns') \<and>
            (\<forall>k. \<not> prefix ''post:'' k \<longrightarrow> ns_get ns' k = ns_get ns k))"
proof
  let ?res = "delete_all ns (toDelete ns p mx)"
  have 1: "trimPosts ns p mx = Some (fst ?res, snd ?res)"
    by (simp add: trimPosts_toDelete[OF assms])
  have 2: "\<forall>k. \<not> prefix p k \<longrightarrow> ns_get (snd ?res) k = ns_get ns k"
    by (simp add: ns_get_trim_other)
  have 3: "\<forall>k. ns_get (snd ?res) k \<noteq> ns_get ns k \<longrightarrow> prefix p k \<and> ns_get (snd ?res) k = None"
    using 2 by (auto simp: ns_get_delete_all)
  from 1 2 3 show "\<exists>r ns'. trimPosts ns p mx = Some (r, ns') \<and>
            (\<forall>k. \<not> prefix p k \<longrightarrow> ns_get ns' k = ns_get ns k) \<and>
            (\<forall>k. ns_get ns' k \<noteq> ns_get ns k \<longrightarrow> prefix p k \<and> ns_get ns' k = None)"
    by blast
next
  show "\<exists>r ns'. posts_post e req ns = Some (r, ns') \<and>
            (\<forall>k. \<not> prefix ''post:'' k \<longrightarrow> ns_get ns' k = ns_get ns k)"
  proof (cases "isAuthed e req \<and> (\<exists>b. json_body req = Some b \<and> body_image_url b \<noteq> [])")
    case False
    from posts_post_refused[OF False, of ns] show ?thesis by auto
  next
    case True
    then obtain b where b: "isAuthed e req" "json_body req = Some b" "body_image_url b \<noteq> []"
      by blast
    let ?key = "post_key (post_ts b (now req)) (body_id b) (randomUUID req)"
    let ?ns1 = "ns_put ns ?key (Post (post_item_of b (post_ts b (now req))))"
    let ?ns2 = "snd (delete_all ?ns1 (toDelete ?ns1 ''post:'' (max_posts e)))"
    have "\<forall>k. \<not> prefix ''post:'' k \<longrightarrow> ns_get ?ns2 k = ns_get ns k"
    proof (intro allI impI)
      fix k assume k: "\<not> prefix ''post:'' k"
      then have "k \<noteq> ?key" using prefix_post_key by metis
      then show "ns_get ?ns2 k = ns_get ns k"
        by (simp add: ns_get_trim_other[OF k] ns_get_ns_put)
    qed
    then show ?thesis
      unfolding posts_post_accepted[OF b assms] by blast
  qed
qed

lemma isAuthed_example: "isAuthed example_env (example_request ts pid)"
  by (simp add: isAuthed_def bearer_def example_env_def example_request_def truthy_def)

lemma json_body_example: "json_body (example_request ts pid) = Some (example_body ts pid)"
  by (simp add: example_request_def)

lemma image_url_example: "body_image_url (example_body ts pid) \<noteq> []"
  by (simp add: example_body_def)

lemma max_posts_example: "max_posts example_env = Some 2"
  by (simp add: max_posts_def parseInt_def example_env_def is_space_def is_digit_def
      digits_value_def digit_val_def)

lemma post_key_example_1n:
  "post_key (post_ts (example_body 1 ''n'') t) (body_id (example_body 1 ''n'')) u =
   ''post:0000000000001:n''"
  by (simp add: post_key_def post_ts_def example_body_def padStart_def js_String_def
      nat_digits.simps digit_char_def replicate_numeral)

theorem trim_and_append_keep_other_keys_witness:
  "0 < limit example_ns \<and>
   ns_get example_ns ''stats:current'' \<noteq> None \<and>
   (\<exists>r ns'. trimPosts example_ns ''post:'' (Some 2) = Some (r, ns') \<and>
      ns_get ns' ''stats:current'' = ns_get example_ns ''stats:current'') \<and>
   (\<exists>r ns'. posts_post example_env (example_request 1 ''n'') example_ns = Some (r, ns') \<and>
      ns_get ns' ''stats:current'' = ns_get example_ns ''stats:current'')"
proof -
  have l: "0 < limit example_ns" by (simp add: example_ns_def)
  have s: "\<not> prefix ''post:'' ''stats:current''" by simp
  have g: "ns_get example_ns ''stats:current'' \<noteq> None"
    by (simp add: ns_get_def example_ns_def)
  from trim_and_append_keep_other_keys
         [OF l, of "''post:''" "Some 2" example_env "example_request 1 ''n''"] s l g
  show ?thesis by blast
qed

text \<open>
  C9 (as amended). When \<open>trimPosts\<close> is rejected, the handler ends with the uncaught
  exception and undoes nothing: the namespace is the one the write produced, minus those
  of the keys selected by the trim whose delete went through. The new record is still
  stored under its key, unless that key is itself among the selected oldest keys and its
  delete went through.
\<close>

theorem failed_trim_keeps_write:
  assumes "isAuthed e req" "json_body req = Some b" "body_image_url b \<noteq> []" "0 < limit ns"
    and "posts_post e req ns = Some (Uncaught, ns2)"
  shows "(\<forall>k. ns_get ns2 k =
            (if k \<in> set (toDelete (ns_put ns (post_key (post_ts b (now req)) (body_id b) (randomUUID req))
                                       (Post (post_item_of b (post_ts b (now req)))))
                          ''post:'' (max_posts e)) \<and> \<not> delete_fails ns k
             then None
             else if k = post_key (post_ts b (now req)) (body_id b) (randomUUID req)
             then Some (Post (post_item_of b (post_ts b (now req))))
             else ns_get ns k)) \<and>
         (ns_get ns2 (post_key (post_ts b (now req)) (body_id b) (randomUUID req)) =
            Some (Post (post_item_of b (post_ts b (now req)))) \<longleftrightarrow>
          \<not> (post_key (post_ts b (now req)) (body_id b) (randomUUID req)
               \<in> set (toDelete (ns_put ns (post_key (post_ts b (now req)) (body_id b) (randomUUID req))
                                       (Post (post_item_of b (post_ts b (now req)))))
                          ''post:'' (max_posts e)) \<and>
             \<not> delete_fails ns (post_key (post_ts b (now req)) (body_id b) (randomUUID req))))"
proof -
  let ?key = "post_key (post_ts b (now req)) (body_id b) (randomUUID req)"
  let ?ns1 = "ns_put ns ?key (Post (post_item_of b (post_ts b (now req))))"
  let ?td = "toDelete ?ns1 ''post:'' (max_posts e)"
  have "ns2 = snd (delete_all ?ns1 ?td)"
    using assms(5) unfolding posts_post_accepted[OF assms(1-4)] by simp
  then have g: "\<And>k. ns_get ns2 k =
      (if k \<in> set ?td \<and> \<not> delete_fails ns k then None
       else if k = ?key then Some (Post (post_item_of b (post_ts b (now req)))) else ns_get ns k)"
    by (simp add: ns_get_delete_all ns_get_ns_put)
  show ?thesis
    using g by simp
qed

lemma toDelete_example_failing:
  "toDelete (ns_put example_ns_failing ''post:0000000000001:n'' v) ''post:'' (Some 2) =
     [''post:0000000000001:d'', ''post:0000000000001:n'', ''post:0000000000003:b'']"
  by (simp add: toDelete_def sorted_names_def prefix_keys_def kv_keys_def ns_put_def
      example_ns_failing_def example_ns_def slice0_def)

text \<open>
  The claim as stated fails when the new record is one of the oldest: with a bound of two
  and a log of four, a record older than all but one is appended, the trim selects the
  three smallest keys, one delete is rejected, and the delete of the new key goes through.
\<close>

theorem failed_trim_keeps_write_counterexample:
  "map_option (\<lambda>(r, ns2). (r, ns_get ns2 ''post:0000000000001:n''))
     (posts_post example_env (example_request 1 ''n'') example_ns_failing) = Some (Uncaught, None)"
proof -
  have l: "0 < limit example_ns_failing" by (simp add: example_ns_failing_def example_ns_def)
  have f: "delete_fails example_ns_failing = (\<lambda>k. k = ''post:0000000000003:b'')"
    by (simp add: example_ns_failing_def)
  show ?thesis
    unfolding posts_post_accepted[OF isAuthed_example json_body_example image_url_example l]
      post_key_example_1n max_posts_example toDelete_example_failing
    by (simp add: ns_get_delete_all f del: delete_all.simps)
qed

theorem failed_trim_keeps_write_witness:
  "isAuthed example_env (example_request 10 ''n'') \<and>
   json_body (example_request 10 ''n'') = Some (example_body 10 ''n'') \<and>
   body_image_url (example_body 10 ''n'') \<noteq> [] \<and>
   0 < limit example_ns_failing \<and>
   map_option fst (posts_post example_env (example_request 10 ''n'') example_ns_failing) =
     Some Uncaught \<and>
   map_option (\<lambda>(r, ns2). ns_get ns2 ''post:0000000000010:n'')
     (posts_post example_env (example_request 10 ''n'') example_ns_failing) =
     Some (Some (Post (post_item_of (example_body 10 ''n'') 10)))"
proof -
  have l: "0 < limit example_ns_failing" by (simp add: example_ns_failing_def example_ns_def)
  have f: "delete_fails example_ns_failing = (\<lambda>k. k = ''post:0000000000003:b'')"
    by (simp add: example_ns_failing_def)
  have k: "\<And>u. post_key 10 (body_id (example_body 10 ''n'')) u = ''post:0000000000010:n''"
    by (simp add: post_key_def post_ts_def example_body_def padStart_def js_String_def
        nat_digits.simps digit_char_def replicate_numeral)
  have t: "post_ts (example_body 10 ''n'') (now (example_request 10 ''n'')) = 10"
    by (simp add: post_ts_def example_body_def)
  have td: "toDelete (ns_put example_ns_failing ''post:0000000000010:n''
              (Post (post_item_of (example_body 10 ''n'') 10))) ''post:'' (Some 2) =
            [''post:0000000000001:d'', ''post:0000000000003:b'', ''post:0000000000005:a'']"
    by (simp add: toDelete_def sorted_names_def prefix_keys_def kv_keys_def ns_put_def
        example_ns_failing_def example_ns_def slice0_def)
  obtain ns2 where p: "posts_post example_env (example_request 10 ''n'') example_ns_failing =
      Some (Uncaught, ns2)"
    unfolding posts_post_accepted[OF isAuthed_example json_body_example image_url_example l]
      k t max_posts_example td
    by (simp add: f)
  from failed_trim_keeps_write[OF isAuthed_example json_body_example image_url_example l p]
  have "ns_get ns2 ''post:0000000000010:n'' = Some (Post (post_item_of (example_body 10 ''n'') 10))"
    unfolding k t max_posts_example td by (simp add: f del: delete_all.simps)
  with p isAuthed_example json_body_example image_url_example l show ?thesis
    by simp
qed

subsection \<open>The configured bound\<close>

lemma toDelete_negative: "m < 0 \<Longrightarrow> toDelete ns p (Some m) = sorted_names ns p"
  by (simp add: toDelete_def slice0_def Let_def)

lemma toDelete_NaN: "toDelete ns p None = []"
  by (simp add: toDelete_def)

lemma isAuthed_MAX_POSTS [simp]: "isAuthed (e\<lparr>MAX_POSTS := m\<rparr>) req = isAuthed e req"
  by (simp add: isAuthed_def)

lemma example_put_10n_keys:
  "prefix_keys (ns_put example_ns ''post:0000000000010:n'' v) ''post:'' =
     [''post:0000000000001:d'', ''post:0000000000003:b'', ''post:0000000000005:a'',
      ''post:0000000000009:c'', ''post:0000000000010:n'']"
  by (simp add: prefix_keys_def kv_keys_def ns_put_def example_ns_def)

lemma post_key_example_10n:
  "post_key (post_ts (example_body 10 ''n'') t) (body_id (example_body 10 ''n'')) u =
   ''post:0000000000010:n''"
  by (simp add: post_key_def post_ts_def example_body_def padStart_def js_String_def
      nat_digits.simps digit_char_def replicate_numeral)

text \<open>
  C6. The handler passes \<open>parseInt(env.MAX_POSTS || "50", 10)\<close> to \<open>trimPosts\<close> as it is:
  only an unset or empty variable gets the default. With \<open>MAX_POSTS = "-1"\<close> the bound is
  \<open>-1\<close>, every count exceeds it, \<open>slice(0, count + 1)\<close> is the whole list, and the trim
  deletes every post, the one just written included, while the response is still
  \<open>ok\<close>; under the default bound of 50 the same request keeps all five posts. A
  non-numeric value gives \<open>NaN\<close>, with which the trim never deletes.
\<close>

theorem negative_max_posts_deletes_all:
  "max_posts example_env_negative = Some (- 1) \<and>
   max_posts example_env_default = Some 50 \<and>
   max_posts example_env_words = None \<and>
   map_option (\<lambda>(r, ns'). (r, prefix_keys ns' ''post:''))
     (posts_post example_env_negative (example_request 10 ''n'') example_ns) =
     Some (Ok_key ''post:0000000000010:n'', []) \<and>
   map_option (\<lambda>(r, ns'). (r, prefix_keys ns' ''post:''))
     (posts_post example_env_default (example_request 10 ''n'') example_ns) =
     Some (Ok_key ''post:0000000000010:n'',
           [''post:0000000000001:d'', ''post:0000000000003:b'', ''post:0000000000005:a'',
            ''post:0000000000009:c'', ''post:0000000000010:n''])"
proof -
  have l: "0 < limit example_ns" by (simp add: example_ns_def)
  have f: "delete_fails example_ns = (\<lambda>k. False)" by (simp add: example_ns_def)
  have n: "max_posts example_env_negative = Some (- 1)"
    by (simp add: max_posts_def parseInt_def example_env_negative_def example_env_def
        is_space_def is_digit_def digits_value_def digit_val_def)
  have d: "max_posts example_env_default = Some 50"
    by (simp add: max_posts_def parseInt_def example_env_default_def example_env_def
        is_space_def is_digit_def digits_value_def digit_val_def)
  have w: "max_posts example_env_words = None"
    by (simp add: max_posts_def parseInt_def example_env_words_def example_env_def
        is_space_def is_digit_def)
  have an: "isAuthed example_env_negative (example_request 10 ''n'')"
    and ad: "isAuthed example_env_default (example_request 10 ''n'')"
    by (simp_all add: example_env_negative_def example_env_default_def isAuthed_example)
  have 1: "map_option (\<lambda>(r, ns'). (r, prefix_keys ns' ''post:''))
     (posts_post example_env_negative (example_request 10 ''n'') example_ns) =
     Some (Ok_key ''post:0000000000010:n'', [])"
    unfolding posts_post_accepted[OF an json_body_example image_url_example l]
      post_key_example_10n n
    by (simp add: toDelete_negative prefix_keys_delete_all example_put_10n_keys f
        del: delete_all.simps)
  have 2: "map_option (\<lambda>(r, ns'). (r, prefix_keys ns' ''post:''))
     (posts_post example_env_default (example_request 10 ''n'') example_ns) =
     Some (Ok_key ''post:0000000000010:n'',
           [''post:0000000000001:d'', ''post:0000000000003:b'', ''post:0000000000005:a'',
            ''post:0000000000009:c'', ''post:0000000000010:n''])"
    unfolding posts_post_accepted[OF ad json_body_example image_url_example l]
      post_key_example_10n d
    by (simp add: toDelete_def example_put_10n_keys)
  from n d w 1 2 show ?thesis by simp
qed

subsection \<open>The feed\<close>

lemma listKV_ns_list:
  assumes "0 < limit ns"
  shows "listKV ns p = Some (present (ns_get ns) (prefix_keys ns p))"
  by (simp add: listKV_def listKV_loop_ns_list[OF assms] cursor_offset_def)

lemma sorted_take_recent:
  "sorted (map (\<lambda>v. - value_timestamp v)
     (map snd (take n (sort_key (\<lambda>x. - value_timestamp (snd x)) items))))"
proof -
  have "map (\<lambda>v. - value_timestamp v)
          (map snd (take n (sort_key (\<lambda>x. - value_timestamp (snd x)) items))) =
        take n (map (\<lambda>x. - value_timestamp (snd x)) (sort_key (\<lambda>x. - value_timestamp (snd x)) items))"
    by (simp add: take_map comp_def)
  then show ?thesis
    by (simp add: sorted_wrt_take)
qed

lemma dropped_not_more_recent:
  assumes "v \<in> set (map snd (drop n (sort_key (\<lambda>x. - value_timestamp (snd x)) items)))"
    and "w \<in> set (map snd (take n (sort_key (\<lambda>x. - value_timestamp (snd x)) items)))"
  shows "value_timestamp v \<le> value_timestamp w"
proof -
  let ?f = "\<lambda>x. - value_timestamp (snd x)"
  let ?S = "sort_key ?f items"
  have "sorted (map ?f (take n ?S @ drop n ?S))" by simp
  then have le: "\<forall>x\<in>set (take n ?S). \<forall>y\<in>set (drop n ?S). ?f x \<le> ?f y"
    unfolding map_append sorted_append by simp
  from assms obtain y x where "y \<in> set (drop n ?S)" "v = snd y" "x \<in> set (take n ?S)" "w = snd x"
    by auto
  with le show ?thesis by fastforce
qed

lemma mset_take_drop_recent:
  "mset (map snd items) =
     mset (map snd (take n (sort_key (\<lambda>x. - value_timestamp (snd x)) items))) +
     mset (map snd (drop n (sort_key (\<lambda>x. - value_timestamp (snd x)) items)))"
proof -
  let ?S = "sort_key (\<lambda>x. - value_timestamp (snd x)) items"
  have "mset (map snd items) = mset (map snd ?S)" by simp
  also have "\<dots> = mset (map snd (take n ?S @ drop n ?S))" by simp
  also have "\<dots> = mset (map snd (take n ?S)) + mset (map snd (drop n ?S))"
    unfolding map_append mset_append ..
  finally show ?thesis .
qed

text \<open>
  C7 (as amended). \<open>GET /feed\<close> returns: its result is in descending order of timestamp;
  it has 48 entries, or all the scanned posts when there are fewer; together with the posts
  left out it holds each scanned value once, and no post left out is more recent than a
  post returned; it consists of stored values of \<open>post:\<close> keys only, the keys are not part
  of it. The page size is the constant 48 of the handler, not a value of the request.
\<close>

theorem feed_get_recent:
  assumes "0 < limit ns"
  shows "\<exists>items page rest.
           listKV ns ''post:'' = Some items \<and>
           feed_get ns = Some page \<and>
           length page = min 48 (length items) \<and>
           sorted (map (\<lambda>v. - value_timestamp v) page) \<and>
           mset (map snd items) = mset page + mset rest \<and>
           (\<forall>v\<in>set rest. \<forall>w\<in>set page. value_timestamp v \<le> value_timestamp w) \<and>
           set page \<subseteq> {v. \<exists>k. prefix ''post:'' k \<and> ns_get ns k = Some v}"
proof -
  let ?items = "present (ns_get ns) (prefix_keys ns ''post:'')"
  let ?S = "sort_key (\<lambda>x. - value_timestamp (snd x)) ?items"
  let ?page = "map snd (take 48 ?S)"
  let ?rest = "map snd (drop 48 ?S)"
  have 1: "listKV ns ''post:'' = Some ?items"
    by (rule listKV_ns_list[OF assms])
  have 2: "feed_get ns = Some ?page"
    by (simp add: feed_get_def 1)
  have 3: "length ?page = min 48 (length ?items)"
    by (simp add: min.commute)
  have 4: "sorted (map (\<lambda>v. - value_timestamp v) ?page)"
    by (rule sorted_take_recent)
  have 5: "mset (map snd ?items) = mset ?page + mset ?rest"
    by (rule mset_take_drop_recent)
  have 6: "\<forall>v\<in>set ?rest. \<forall>w\<in>set ?page. value_timestamp v \<le> value_timestamp w"
    using dropped_not_more_recent[of _ 48 ?items] by blast
  have "set (take 48 ?S) \<subseteq> set ?items"
    using set_take_subset[of 48 ?S] by simp
  then have "set ?page \<subseteq> snd ` set ?items"
    by auto
  moreover have "snd ` set ?items \<subseteq> {v. \<exists>k. prefix ''post:'' k \<and> ns_get ns k = Some v}"
    by (auto simp: present_def set_prefix_keys)
  ultimately have 7: "set ?page \<subseteq> {v. \<exists>k. prefix ''post:'' k \<and> ns_get ns k = Some v}"
    by (rule subset_trans)
  show ?thesis
    by (intro exI[of _ ?items] exI[of _ ?page] exI[of _ ?rest] conjI) (rule 1 2 3 4 5 6 7)+
qed

lemma listKV_example_unsorted:
  "listKV example_ns_unsorted ''post:'' = Some
     [(''post:0000000000005:a'', example_post 5 ''a''),
      (''post:0000000000003:b'', example_post 3 ''b''),
      (''post:0000000000009:c'', example_post 9 ''c''),
      (''post:0000000000001:d'', example_post 1 ''d'')]"
proof -
  have l: "0 < limit example_ns_unsorted" by (simp add: example_ns_unsorted_def)
  show ?thesis
    unfolding listKV_ns_list[OF l] example_unsorted_keys present_def
    by (simp add: ns_get_def example_ns_unsorted_def)
qed

text \<open>
  The claim as stated takes a page size of two as an input. The handler has no such
  input: on the four posts that the scan returns with the timestamps 5, 3, 9, 1, the feed
  holds all four, 9, 5, 3, 1, and not the two posts of 9 and 5.
\<close>

theorem feed_get_recent_counterexample:
  "map_option (map (value_timestamp \<circ> snd)) (listKV example_ns_unsorted ''post:'') =
     Some [5, 3, 9, 1] \<and>
   feed_get example_ns_unsorted =
     Some [example_post 9 ''c'', example_post 5 ''a'', example_post 3 ''b'',
           example_post 1 ''d''] \<and>
   map_option (map value_timestamp) (feed_get example_ns_unsorted) = Some [9, 5, 3, 1]"
  by (simp add: feed_get_def listKV_example_unsorted value_timestamp_def example_post_def)

lemma pairs_example_many:
  "pairs example_ns_many =
     map (\<lambda>n. (''post:'' @ nat_digits n, example_post (int n) (nat_digits n))) [101..<151]"
  by (simp add: example_ns_many_def)

lemma listKV_example_many:
  "listKV example_ns_many ''post:'' = Some (pairs example_ns_many)"
proof -
  have l: "0 < limit example_ns_many" by (simp add: example_ns_many_def)
  have inj: "inj_on (\<lambda>n. ''post:'' @ nat_digits n) A" for A
    by (rule inj_onI) (metis digits_value_nat_digits same_append_eq)
  have keys: "map fst (pairs example_ns_many) = map (\<lambda>n. ''post:'' @ nat_digits n) [101..<151]"
    unfolding pairs_example_many by (simp add: comp_def)
  have d: "distinct (map fst (pairs example_ns_many))"
    unfolding keys distinct_map by (intro conjI distinct_upt inj)
  have pk: "prefix_keys example_ns_many ''post:'' = map fst (pairs example_ns_many)"
    unfolding prefix_keys_def kv_keys_def distinct_remdups_id[OF d]
    unfolding keys by (rule filter_True) auto
  have "present (ns_get example_ns_many) (map fst ps) = ps"
    if "set ps \<subseteq> set (pairs example_ns_many)" for ps
    using that
  proof (induction ps)
    case Nil
    show ?case by (simp add: present_def)
  next
    case (Cons q ps)
    then have "q \<in> set (pairs example_ns_many)" by simp
    then have "map_of (pairs example_ns_many) (fst q) = Some (snd q)"
      using d by (metis map_of_is_SomeI prod.collapse)
    with Cons show ?case by (simp add: present_def ns_get_def)
  qed
  then have "present (ns_get example_ns_many) (map fst (pairs example_ns_many)) =
             pairs example_ns_many" by simp
  then show ?thesis
    unfolding listKV_ns_list[OF l] pk by simp
qed

text \<open>
  On the fifty posts of \<open>example_ns_many\<close>, which the scan returns with the timestamps 101
  to 150, the feed holds the 48 posts of timestamps 150 down to 103.
\<close>

theorem feed_get_recent_witness:
  "0 < limit example_ns_many \<and>
   map_option (map (value_timestamp \<circ> snd)) (listKV example_ns_many ''post:'') =
     Some (map int [101..<151]) \<and>
   (\<exists>page. feed_get example_ns_many = Some page \<and>
      length page = 48 \<and>
      map value_timestamp page = map int (rev [103..<151]))"
proof -
  have l: "0 < limit example_ns_many" by (simp add: example_ns_many_def)
  have ts: "map_option (map (value_timestamp \<circ> snd)) (listKV example_ns_many ''post:'') =
     Some (map int [101..<151])"
    unfolding listKV_example_many pairs_example_many
    by (simp add: comp_def value_timestamp_def example_post_def)
  from feed_get_recent[OF l] obtain items page where
    i: "listKV example_ns_many ''post:'' = Some items" and
    f: "feed_get example_ns_many = Some page" and
    n: "length page = min 48 (length items)"
    by blast
  from i have "length items = 50"
    unfolding listKV_example_many pairs_example_many by auto
  with n have n48: "length page = 48" by simp
  have "map_option (map value_timestamp) (feed_get example_ns_many) =
        Some (map int (rev [103..<151]))"
    unfolding feed_get_def listKV_example_many pairs_example_many
    by (simp add: upt_rec_numeral value_timestamp_def example_post_def)
  with f have v: "map value_timestamp page = map int (rev [103..<151])" by simp
  from l ts f n48 v show ?thesis by blast
qed

subsection \<open>Keeping the largest keys\<close>

lemma toDelete_trim_count:
  "toDelete ns p mx = take (trim_count mx (length (sorted_names ns p))) (sorted_names ns p)"
  by (auto simp: toDelete_def trim_count_def slice0_def Let_def split: option.splits)

lemma trim_count_nat: "trim_count (Some (int K)) n = n - K"
  by (auto simp: trim_count_def min_def nat_diff_distrib')




lemma sorted_list_of_set_eqI:
  fixes xs :: "'a::linorder list"
  assumes "sorted_wrt (<) xs" "set xs = A"
  shows "sorted_list_of_set A = xs"
proof (rule sorted_distinct_set_unique)
  have "finite A" using assms(2) by auto
  then show "sorted (sorted_list_of_set A)" "distinct (sorted_list_of_set A)"
    "set (sorted_list_of_set A) = set xs"
    using assms(2) by simp_all
  show "sorted xs" "distinct xs" using assms(1) by (simp_all add: strict_sorted_iff)
qed

lemma sorted_names_ns_put:
  assumes "prefix p k"
  shows "sorted_names (ns_put ns k v) p = sorted_list_of_set (insert k (set (prefix_keys ns p)))"
proof (rule sorted_list_of_set_eqI[symmetric])
  show "sorted_wrt (<) (sorted_names (ns_put ns k v) p)" by (rule strict_sorted_names)
  show "set (sorted_names (ns_put ns k v) p) = insert k (set (prefix_keys ns p))"
    using assms by (auto simp: set_prefix_keys ns_get_ns_put)
qed

lemma sorted_names_delete_all:
  "sorted_names (snd (delete_all ns ds)) p =
     filter (\<lambda>k. \<not> (k \<in> set ds \<and> \<not> delete_fails ns k)) (sorted_names ns p)"
  by (simp add: sorted_names_def prefix_keys_delete_all filter_sort)

lemma lastn_all: "length xs \<le> m \<Longrightarrow> lastn m xs = xs"
  by (simp add: lastn_def)

lemma lastn_append_exact: "length ys = m \<Longrightarrow> lastn m (xs @ ys) = ys"
  by (simp add: lastn_def)

lemma lastn_append_more: "m \<le> length ys \<Longrightarrow> lastn m (xs @ ys) = lastn m ys"
  by (simp add: lastn_def)

lemma lastn_insert_lastn:
  fixes L :: "'a::linorder list"
  assumes "sorted_wrt (<) L"
  shows "lastn m (sorted_list_of_set (insert k (set (lastn m L)))) =
         lastn m (sorted_list_of_set (insert k (set L)))"
proof (cases "length L \<le> m")
  case True
  then show ?thesis by (simp add: lastn_all)
next
  case False
  define F where "F = take (length L - m) L"
  define M where "M = drop (length L - m) L"
  have L: "L = F @ M" by (simp add: F_def M_def)
  have lenM: "length M = m" using False by (simp add: M_def)
  have sF: "sorted_wrt (<) F" and sM: "sorted_wrt (<) M"
    and FM: "\<forall>f\<in>set F. \<forall>x\<in>set M. f < x"
    using assms unfolding L by (auto simp: sorted_wrt_append)
  have lastM: "lastn m L = M" by (simp add: lastn_def M_def)
  show ?thesis
  proof (cases "k \<in> set M")
    case True
    then have "insert k (set M) = set M" "insert k (set L) = set L"
      by (auto simp: L)
    moreover have "sorted_list_of_set (set M) = M" "sorted_list_of_set (set L) = L"
      using sM assms by (simp_all add: sorted_list_of_set_eqI)
    ultimately show ?thesis
      using lenM by (simp add: lastM lastn_all)
  next
    case kM: False
    show ?thesis
    proof (cases "\<forall>x\<in>set M. k < x")
      case True
      have a: "sorted_list_of_set (insert k (set M)) = k # M"
        by (rule sorted_list_of_set_eqI) (use True sM in auto)
      define Y where "Y = sorted_list_of_set (insert k (set F))"
      have sY: "sorted_wrt (<) Y" and setY: "set Y = insert k (set F)"
        by (simp_all add: Y_def del: sorted_list_of_set_insert_remove)
      have b: "sorted_list_of_set (insert k (set L)) = Y @ M"
      proof (rule sorted_list_of_set_eqI)
        show "sorted_wrt (<) (Y @ M)"
          using sY setY sM FM True by (auto simp: sorted_wrt_append)
        show "set (Y @ M) = insert k (set L)"
          by (auto simp: L setY)
      qed
      have "lastn m (k # M) = M"
        using lenM lastn_append_exact[of M m "[k]"] by simp
      then show ?thesis
        unfolding lastM a b by (simp add: lastn_append_exact[OF lenM])
    next
      case False
      then obtain x where x: "x \<in> set M" "\<not> k < x" by blast
      with kM have xk: "x < k" by (metis linorder_neqE)
      have Fk: "\<forall>f\<in>set F. f < k"
        using FM x(1) xk by (meson less_trans)
      define Y where "Y = sorted_list_of_set (insert k (set M))"
      have sY: "sorted_wrt (<) Y" and setY: "set Y = insert k (set M)"
        and lenY: "length Y = card (insert k (set M))"
        by (simp_all add: Y_def del: sorted_list_of_set_insert_remove)
      have b: "sorted_list_of_set (insert k (set L)) = F @ Y"
      proof (rule sorted_list_of_set_eqI)
        show "sorted_wrt (<) (F @ Y)"
          using sF sY setY FM Fk by (auto simp: sorted_wrt_append)
        show "set (F @ Y) = insert k (set L)"
          by (auto simp: L setY)
      qed
      have "distinct M" using sM by (simp add: strict_sorted_iff)
      then have "length Y = Suc m"
        using kM lenM by (simp add: lenY distinct_card)
      then have "m \<le> length Y" by simp
      then show ?thesis
        unfolding lastM b Y_def[symmetric] by (simp add: lastn_append_more)
    qed
  qed
qed

lemma limit_delete_all [simp]: "limit (snd (delete_all ns ds)) = limit ns"
  by (simp add: delete_all_eq)

lemma delete_fails_delete_all [simp]: "delete_fails (snd (delete_all ns ds)) = delete_fails ns"
  by (simp add: delete_all_eq)

subsection \<open>Appending a record twice\<close>










text \<open>The namespace an accepted request leaves when the deletes succeed.\<close>

lemma posts_post_appended:
  assumes "isAuthed e req" "json_body req = Some b" "body_image_url b \<noteq> []"
    and "0 < limit ns" "\<forall>k. \<not> delete_fails ns k"
  shows "posts_post e req ns =
     Some (Ok_key (post_key (post_ts b (now req)) (body_id b) (randomUUID req)),
           appended ns (post_key (post_ts b (now req)) (body_id b) (randomUUID req))
             (Post (post_item_of b (post_ts b (now req)))) (max_posts e))"
  unfolding posts_post_accepted[OF assms(1-4)] appended_def using assms(5) by simp

lemma limit_appended [simp]: "limit (appended ns key v mx) = limit ns"
  by (simp add: appended_def)

lemma delete_fails_appended [simp]: "delete_fails (appended ns key v mx) = delete_fails ns"
  by (simp add: appended_def)


lemma toDelete_appended:
  assumes "prefix ''post:'' key"
    and "names = sorted_list_of_set (insert key (set (prefix_keys ns ''post:'')))"
  shows "toDelete (ns_put ns key v) ''post:'' mx = take (trim_count mx (length names)) names"
  unfolding toDelete_trim_count assms(2) sorted_names_ns_put[OF assms(1)] ..

lemma sorted_names_appended:
  assumes "\<forall>k. \<not> delete_fails ns k" "prefix ''post:'' key"
    and "names = sorted_list_of_set (insert key (set (prefix_keys ns ''post:'')))"
  shows "sorted_names (appended ns key v mx) ''post:'' = drop (trim_count mx (length names)) names"
proof -
  have n1: "sorted_names (ns_put ns key v) ''post:'' = names"
    unfolding assms(3) by (rule sorted_names_ns_put[OF assms(2)])
  have dn: "distinct names" using n1 distinct_sorted_names by metis
  have nf: "\<forall>k. \<not> delete_fails (ns_put ns key v) k" using assms(1) by simp
  show ?thesis
    unfolding appended_def
    using nf
    by (simp add: sorted_names_delete_all toDelete_appended[OF assms(2,3)] n1
        filter_notin_take[OF dn])
qed

lemma ns_get_appended:
  assumes "\<forall>k. \<not> delete_fails ns k" "prefix ''post:'' key"
    and "names = sorted_list_of_set (insert key (set (prefix_keys ns ''post:'')))"
  shows "ns_get (appended ns key v mx) k =
     (if k \<in> set (take (trim_count mx (length names)) names) then None
      else if k = key then Some v else ns_get ns k)"
proof -
  have nf: "\<forall>k. \<not> delete_fails (ns_put ns key v) k" using assms(1) by simp
  show ?thesis
    unfolding appended_def
    using nf by (simp add: ns_get_delete_all toDelete_appended[OF assms(2,3)] ns_get_ns_put)
qed






lemma pairs_appended:
  assumes "\<forall>k. \<not> delete_fails ns k"
  shows "pairs (appended ns key v mx) =
     filter (\<lambda>q. fst q \<notin> set (toDelete (ns_put ns key v) ''post:'' mx))
       (put_pair key v (pairs ns))"
  using assms by (simp add: appended_def delete_all_eq ns_put_def)







subsection \<open>The bounded log\<close>

lemma acceptedE:
  assumes "accepted e req"
  obtains b where "isAuthed e req" "json_body req = Some b" "body_image_url b \<noteq> []"
    "req_key req = post_key (post_ts b (now req)) (body_id b) (randomUUID req)"
    "req_value req = Some (Post (post_item_of b (post_ts b (now req))))"
    "req_ts req = post_ts b (now req)"
  using assms
  by (cases "json_body req")
     (simp_all add: accepted_def req_key_def req_value_def req_ts_def post_item_of_def)

lemma prefix_req_key: "accepted e req \<Longrightarrow> prefix ''post:'' (req_key req)"
  by (erule acceptedE) (simp add: prefix_post_key)

lemma value_timestamp_req_value:
  "accepted e req \<Longrightarrow> map_option value_timestamp (req_value req) = Some (req_ts req)"
  by (cases "json_body req") (simp_all add: accepted_def req_value_def value_timestamp_def)

lemma lastn_nat: "lastn K xs = drop (trim_count (Some (int K)) (length xs)) xs"
  by (simp add: lastn_def trim_count_nat)

lemma posts_post_step:
  assumes acc: "accepted e req" and l: "0 < limit ns" and nf: "\<forall>k. \<not> delete_fails ns k"
    and mx: "max_posts e = Some (int K)"
  shows "\<exists>ns'. posts_post e req ns = Some (Ok_key (req_key req), ns') \<and>
           limit ns' = limit ns \<and> delete_fails ns' = delete_fails ns \<and>
           sorted_names ns' ''post:'' =
             lastn K (sorted_list_of_set (insert (req_key req) (set (prefix_keys ns ''post:'')))) \<and>
           (\<forall>k. k \<in> set (prefix_keys ns' ''post:'') \<longrightarrow>
                ns_get ns' k = (if k = req_key req then req_value req else ns_get ns k)) \<and>
           (\<forall>k. \<not> prefix ''post:'' k \<longrightarrow> ns_get ns' k = ns_get ns k)"
proof -
  from acc obtain b where b: "isAuthed e req" "json_body req = Some b" "body_image_url b \<noteq> []"
    and key: "req_key req = post_key (post_ts b (now req)) (body_id b) (randomUUID req)"
    and v: "req_value req = Some (Post (post_item_of b (post_ts b (now req))))"
    by (rule acceptedE)
  define names where
    "names = sorted_list_of_set (insert (req_key req) (set (prefix_keys ns ''post:'')))"
  define c where "c = trim_count (max_posts e) (length names)"
  define ns' where
    "ns' = appended ns (req_key req) (Post (post_item_of b (post_ts b (now req)))) (max_posts e)"
  have pk: "prefix ''post:'' (req_key req)" by (rule prefix_req_key[OF acc])
  have p: "posts_post e req ns = Some (Ok_key (req_key req), ns')"
    using posts_post_appended[OF b l nf] unfolding key ns'_def .
  have lim: "limit ns' = limit ns" and fl: "delete_fails ns' = delete_fails ns"
    by (simp_all add: ns'_def)
  have n: "sorted_names ns' ''post:'' = drop c names"
    unfolding ns'_def c_def by (rule sorted_names_appended[OF nf pk names_def])
  have setn': "set (prefix_keys ns' ''post:'') = set (drop c names)"
    using n by (metis set_sorted_names)
  have g: "\<forall>k. ns_get ns' k =
        (if k \<in> set (take c names) then None
         else if k = req_key req then Some (Post (post_item_of b (post_ts b (now req))))
         else ns_get ns k)"
    unfolding ns'_def c_def using ns_get_appended[OF nf pk names_def] by blast
  have sn: "sorted_wrt (<) names"
    and setn: "set names = insert (req_key req) (set (prefix_keys ns ''post:''))"
    by (simp_all add: names_def del: sorted_list_of_set_insert_remove)
  have pre: "\<forall>k\<in>set names. prefix ''post:'' k"
    using pk by (auto simp: setn set_prefix_keys)
  have 1: "sorted_names ns' ''post:'' = lastn K names"
    unfolding n c_def mx by (simp add: lastn_nat)
  have dis: "\<forall>k. k \<in> set (drop c names) \<longrightarrow> k \<notin> set (take c names)"
  proof (intro allI impI notI)
    fix k assume "k \<in> set (drop c names)" "k \<in> set (take c names)"
    with take_less_drop[OF sn, of c] have "k < k" by blast
    then show False by simp
  qed
  have 2: "\<forall>k. k \<in> set (prefix_keys ns' ''post:'') \<longrightarrow>
                ns_get ns' k = (if k = req_key req then req_value req else ns_get ns k)"
    using dis g by (simp add: setn' v)
  have 3: "\<forall>k. \<not> prefix ''post:'' k \<longrightarrow> ns_get ns' k = ns_get ns k"
  proof (intro allI impI)
    fix k assume k: "\<not> prefix ''post:'' k"
    then have "k \<notin> set names" using pre by blast
    then have "k \<notin> set (take c names)" "k \<noteq> req_key req"
      using setn by (auto dest: in_set_takeD)
    then show "ns_get ns' k = ns_get ns k" using g by simp
  qed
  show ?thesis
    unfolding names_def[symmetric]
    by (intro exI[of _ ns'] conjI) (rule p lim fl 1 2 3)+
qed

lemma serve_posts_snoc:
  "serve_posts e (reqs @ [r]) ns =
     (case serve_posts e reqs ns of
        None \<Rightarrow> None
      | Some ns' \<Rightarrow> map_option snd (posts_post e r ns'))"
proof (induction reqs arbitrary: ns)
  case Nil
  show ?case by (cases "posts_post e r ns") auto
next
  case (Cons q reqs)
  show ?case by (cases "posts_post e q ns") (auto simp: Cons.IH)
qed

lemma serve_posts_invariant:
  assumes l: "0 < limit ns0" and nf: "\<forall>k. \<not> delete_fails ns0 k"
    and mx: "max_posts e = Some (int K)" and empty: "prefix_keys ns0 ''post:'' = []"
  shows "(\<forall>r\<in>set reqs. accepted e r) \<Longrightarrow> distinct (map req_key reqs) \<Longrightarrow>
     \<exists>ns. serve_posts e reqs ns0 = Some ns \<and>
          limit ns = limit ns0 \<and> delete_fails ns = delete_fails ns0 \<and>
          sorted_names ns ''post:'' = lastn K (sorted_list_of_set (set (map req_key reqs))) \<and>
          (\<forall>r\<in>set reqs. req_key r \<in> set (prefix_keys ns ''post:'') \<longrightarrow>
               ns_get ns (req_key r) = req_value r) \<and>
          (\<forall>k. \<not> prefix ''post:'' k \<longrightarrow> ns_get ns k = ns_get ns0 k)"
proof (induction reqs rule: rev_induct)
  case Nil
  show ?case by (simp add: empty lastn_def sorted_names_def)
next
  case (snoc r reqs)
  let ?A = "set (map req_key reqs)"
  have accs: "\<forall>q\<in>set reqs. accepted e q" and acc: "accepted e r"
    using snoc.prems(1) by simp_all
  have dist: "distinct (map req_key reqs)" and fresh: "req_key r \<notin> ?A"
    using snoc.prems(2) by simp_all
  from snoc.IH[OF accs dist] obtain ns where h:
    "serve_posts e reqs ns0 = Some ns \<and>
     limit ns = limit ns0 \<and> delete_fails ns = delete_fails ns0 \<and>
     sorted_names ns ''post:'' = lastn K (sorted_list_of_set ?A) \<and>
     (\<forall>q\<in>set reqs. req_key q \<in> set (prefix_keys ns ''post:'') \<longrightarrow>
          ns_get ns (req_key q) = req_value q) \<and>
     (\<forall>k. \<not> prefix ''post:'' k \<longrightarrow> ns_get ns k = ns_get ns0 k)" ..
  note s = h[THEN conjunct1]
  note lim = h[THEN conjunct2, THEN conjunct1]
  note fl = h[THEN conjunct2, THEN conjunct2, THEN conjunct1]
  note n = h[THEN conjunct2, THEN conjunct2, THEN conjunct2, THEN conjunct1]
  note vals = h[THEN conjunct2, THEN conjunct2, THEN conjunct2, THEN conjunct2, THEN conjunct1]
  note other = h[THEN conjunct2, THEN conjunct2, THEN conjunct2, THEN conjunct2, THEN conjunct2]
  have setn: "set (prefix_keys ns ''post:'') = set (lastn K (sorted_list_of_set ?A))"
    using n by (metis set_sorted_names)
  have l': "0 < limit ns" and nf': "\<forall>k. \<not> delete_fails ns k"
    using l nf lim fl by simp_all
  from posts_post_step[OF acc l' nf' mx] obtain ns' where h':
    "posts_post e r ns = Some (Ok_key (req_key r), ns') \<and>
     limit ns' = limit ns \<and> delete_fails ns' = delete_fails ns \<and>
     sorted_names ns' ''post:'' =
       lastn K (sorted_list_of_set (insert (req_key r) (set (prefix_keys ns ''post:'')))) \<and>
     (\<forall>k. k \<in> set (prefix_keys ns' ''post:'') \<longrightarrow>
          ns_get ns' k = (if k = req_key r then req_value r else ns_get ns k)) \<and>
     (\<forall>k. \<not> prefix ''post:'' k \<longrightarrow> ns_get ns' k = ns_get ns k)" ..
  note p' = h'[THEN conjunct1]
  note lim' = h'[THEN conjunct2, THEN conjunct1]
  note fl' = h'[THEN conjunct2, THEN conjunct2, THEN conjunct1]
  note n' = h'[THEN conjunct2, THEN conjunct2, THEN conjunct2, THEN conjunct1]
  note vals' = h'[THEN conjunct2, THEN conjunct2, THEN conjunct2, THEN conjunct2, THEN conjunct1]
  note other' = h'[THEN conjunct2, THEN conjunct2, THEN conjunct2, THEN conjunct2, THEN conjunct2]
  have 1: "serve_posts e (reqs @ [r]) ns0 = Some ns'"
    by (simp add: serve_posts_snoc s p')
  have 2: "limit ns' = limit ns0" "delete_fails ns' = delete_fails ns0"
    using lim lim' fl fl' by simp_all
  have sA: "sorted_wrt (<) (sorted_list_of_set ?A)" and setA: "set (sorted_list_of_set ?A) = ?A"
    by simp_all
  have "sorted_names ns' ''post:'' = lastn K (sorted_list_of_set (insert (req_key r) ?A))"
    unfolding n' setn using lastn_insert_lastn[OF sA, of K "req_key r"] unfolding setA .
  then have 3: "sorted_names ns' ''post:'' =
           lastn K (sorted_list_of_set (set (map req_key (reqs @ [r]))))"
    by (simp del: sorted_list_of_set_insert_remove)
  have 4: "\<forall>q\<in>set (reqs @ [r]). req_key q \<in> set (prefix_keys ns' ''post:'') \<longrightarrow>
             ns_get ns' (req_key q) = req_value q"
  proof (intro ballI impI)
    fix q assume q: "q \<in> set (reqs @ [r])" and in': "req_key q \<in> set (prefix_keys ns' ''post:'')"
    from vals' in' have g: "ns_get ns' (req_key q) =
        (if req_key q = req_key r then req_value r else ns_get ns (req_key q))" by blast
    show "ns_get ns' (req_key q) = req_value q"
    proof (cases "req_key q = req_key r")
      case True
      have "q \<notin> set reqs"
      proof
        assume "q \<in> set reqs"
        then have "req_key q \<in> ?A" by simp
        with True fresh show False by simp
      qed
      then have "q = r" using q by simp
      then show ?thesis using g by simp
    next
      case False
      then have qr: "q \<in> set reqs" using q by auto
      have "ns_get ns' (req_key q) \<noteq> None" using in' by (simp add: set_prefix_keys)
      then have "ns_get ns (req_key q) \<noteq> None" using g False by simp
      moreover have "prefix ''post:'' (req_key q)" using accs qr prefix_req_key by blast
      ultimately have "req_key q \<in> set (prefix_keys ns ''post:'')" by (simp add: set_prefix_keys)
      with vals qr have "ns_get ns (req_key q) = req_value q" by blast
      then show ?thesis using g False by simp
    qed
  qed
  have 5: "\<forall>k. \<not> prefix ''post:'' k \<longrightarrow> ns_get ns' k = ns_get ns0 k"
    using other other' by simp
  show ?case
    by (intro exI[of _ ns'] conjI) (rule 1 2 3 4 5)+
qed

lemma req_key_less:
  assumes "accepted e r" "accepted e r'" "0 \<le> req_ts r" "req_ts r < 10 ^ 13"
    "0 \<le> req_ts r'" "req_ts r' < 10 ^ 13" "req_key r' < req_key r"
  shows "req_ts r' \<le> req_ts r"
proof -
  from assms(1) obtain b where
    k: "req_key r = post_key (post_ts b (now r)) (body_id b) (randomUUID r)"
    and t: "req_ts r = post_ts b (now r)" by (rule acceptedE)
  from assms(2) obtain b' where
    k': "req_key r' = post_key (post_ts b' (now r')) (body_id b') (randomUUID r')"
    and t': "req_ts r' = post_ts b' (now r')" by (rule acceptedE)
  from assms(7) have "post_key (req_ts r') (body_id b') (randomUUID r') <
                      post_key (req_ts r) (body_id b) (randomUUID r)"
    unfolding k k' t t' .
  then show ?thesis
    by (rule post_key_less_ts[OF assms(5,6,3,4)])
qed

text \<open>
  C2 (as amended). \<open>N\<close> accepted requests are served one after the other on a namespace
  with no post yet, with \<open>MAX_POSTS\<close> parsing to \<open>K < N\<close>; their keys are distinct and their
  timestamps lie between \<open>0\<close> and \<open>10^13 - 1\<close>, the range that the 13 digits of the key
  hold. Then all the appends return, in whatever order the service lists the keys;
  exactly \<open>K\<close> post keys are left, they are the \<open>K\<close> largest of the \<open>N\<close> keys; each is bound
  to the record of its request, the fields of the body with the timestamp of the request;
  the other records are gone; and every record left is at least as recent as every record
  dropped.
\<close>

theorem bounded_log_keeps_most_recent:
  assumes "0 < limit ns0" and "\<forall>k. \<not> delete_fails ns0 k"
    and "prefix_keys ns0 ''post:'' = []"
    and "max_posts e = Some (int K)" and "K < length reqs"
    and "\<forall>r\<in>set reqs. accepted e r \<and> 0 \<le> req_ts r \<and> req_ts r < 10 ^ 13"
    and "distinct (map req_key reqs)"
  shows "\<exists>ns. serve_posts e reqs ns0 = Some ns \<and>
     length (prefix_keys ns ''post:'') = K \<and>
     sort (prefix_keys ns ''post:'') = drop (length reqs - K) (sort (map req_key reqs)) \<and>
     (\<forall>r\<in>set reqs. ns_get ns (req_key r) =
        (if req_key r \<in> set (prefix_keys ns ''post:'') then req_value r else None)) \<and>
     (\<forall>r\<in>set reqs. req_key r \<in> set (prefix_keys ns ''post:'') \<longrightarrow>
        map_option value_timestamp (ns_get ns (req_key r)) = Some (req_ts r)) \<and>
     (\<forall>r\<in>set reqs. \<forall>r'\<in>set reqs.
        req_key r \<in> set (prefix_keys ns ''post:'') \<and>
        req_key r' \<notin> set (prefix_keys ns ''post:'') \<longrightarrow> req_ts r' \<le> req_ts r)"
proof -
  let ?L = "sort (map req_key reqs)"
  have accs: "\<forall>r\<in>set reqs. accepted e r" using assms(6) by blast
  from serve_posts_invariant[OF assms(1,2,4,3) accs assms(7)] obtain ns where h:
    "serve_posts e reqs ns0 = Some ns \<and>
     limit ns = limit ns0 \<and> delete_fails ns = delete_fails ns0 \<and>
     sorted_names ns ''post:'' = lastn K (sorted_list_of_set (set (map req_key reqs))) \<and>
     (\<forall>r\<in>set reqs. req_key r \<in> set (prefix_keys ns ''post:'') \<longrightarrow>
          ns_get ns (req_key r) = req_value r) \<and>
     (\<forall>k. \<not> prefix ''post:'' k \<longrightarrow> ns_get ns k = ns_get ns0 k)" ..
  note s = h[THEN conjunct1]
  note n = h[THEN conjunct2, THEN conjunct2, THEN conjunct2, THEN conjunct1]
  note vals = h[THEN conjunct2, THEN conjunct2, THEN conjunct2, THEN conjunct2, THEN conjunct1]
  have "sorted_list_of_set (set (map req_key reqs)) = sort (remdups (map req_key reqs))"
    by (rule sorted_list_of_set_sort_remdups)
  also have "remdups (map req_key reqs) = map req_key reqs"
    by (rule distinct_remdups_id[OF assms(7)])
  finally have sl: "sorted_list_of_set (set (map req_key reqs)) = ?L" .
  have lenL: "length ?L = length reqs" by simp
  have sL: "sorted_wrt (<) ?L"
    using assms(7) by (simp add: strict_sorted_iff)
  have 2: "sort (prefix_keys ns ''post:'') = drop (length reqs - K) ?L"
    using n unfolding sl sorted_names_def by (simp add: lastn_def)
  have setk: "set (prefix_keys ns ''post:'') = set (drop (length reqs - K) ?L)"
    using 2 by (metis set_sort)
  have "length (prefix_keys ns ''post:'') = length (drop (length reqs - K) ?L)"
    using 2 by (metis length_sort)
  then have 1: "length (prefix_keys ns ''post:'') = K"
    using assms(5) by simp
  have 3: "\<forall>r\<in>set reqs. ns_get ns (req_key r) =
        (if req_key r \<in> set (prefix_keys ns ''post:'') then req_value r else None)"
  proof
    fix r assume r: "r \<in> set reqs"
    show "ns_get ns (req_key r) =
        (if req_key r \<in> set (prefix_keys ns ''post:'') then req_value r else None)"
    proof (cases "req_key r \<in> set (prefix_keys ns ''post:'')")
      case True
      with vals r show ?thesis by simp
    next
      case False
      moreover have "prefix ''post:'' (req_key r)" using accs r prefix_req_key by blast
      ultimately show ?thesis by (simp add: set_prefix_keys)
    qed
  qed
  have 4: "\<forall>r\<in>set reqs. req_key r \<in> set (prefix_keys ns ''post:'') \<longrightarrow>
        map_option value_timestamp (ns_get ns (req_key r)) = Some (req_ts r)"
  proof (intro ballI impI)
    fix r assume r: "r \<in> set reqs" and k: "req_key r \<in> set (prefix_keys ns ''post:'')"
    from vals r k have "ns_get ns (req_key r) = req_value r" by blast
    moreover have "accepted e r" using accs r by blast
    ultimately show "map_option value_timestamp (ns_get ns (req_key r)) = Some (req_ts r)"
      by (simp add: value_timestamp_req_value)
  qed
  have 5: "\<forall>r\<in>set reqs. \<forall>r'\<in>set reqs.
        req_key r \<in> set (prefix_keys ns ''post:'') \<and>
        req_key r' \<notin> set (prefix_keys ns ''post:'') \<longrightarrow> req_ts r' \<le> req_ts r"
  proof (intro ballI impI)
    fix r r' assume r: "r \<in> set reqs" and r': "r' \<in> set reqs"
      and k: "req_key r \<in> set (prefix_keys ns ''post:'') \<and>
              req_key r' \<notin> set (prefix_keys ns ''post:'')"
    have "req_key r' \<in> set ?L" using r' by simp
    then have "req_key r' \<in> set (take (length reqs - K) ?L) \<union> set (drop (length reqs - K) ?L)"
      using set_append[of "take (length reqs - K) ?L" "drop (length reqs - K) ?L"] by simp
    with k have in_take: "req_key r' \<in> set (take (length reqs - K) ?L)"
      unfolding setk by blast
    from k have "req_key r \<in> set (drop (length reqs - K) ?L)"
      unfolding setk by blast
    with in_take take_less_drop[OF sL, of "length reqs - K"] have "req_key r' < req_key r"
      by blast
    with assms(6) r r' show "req_ts r' \<le> req_ts r"
      using req_key_less[of e r r'] by blast
  qed
  show ?thesis
    by (intro exI[of _ ns] conjI) (rule s 1 2 3 4 5)+
qed

lemma accepted_example: "accepted example_env (example_request ts pid)"
  by (simp add: accepted_def isAuthed_example json_body_example image_url_example)

lemma req_ts_example: "ts \<noteq> 0 \<Longrightarrow> req_ts (example_request ts pid) = ts"
  by (simp add: req_ts_def json_body_example post_ts_def example_body_def)

lemma req_value_example:
  "ts \<noteq> 0 \<Longrightarrow> pid \<noteq> [] \<Longrightarrow> req_value (example_request ts pid) = Some (example_post ts pid)"
  by (simp add: req_value_def req_ts_example json_body_example example_body_def example_post_def)

lemma req_key_examples:
  "req_key (example_request 5 ''a'') = ''post:0000000000005:a''"
  "req_key (example_request 3 ''b'') = ''post:0000000000003:b''"
  "req_key (example_request 9 ''c'') = ''post:0000000000009:c''"
  by (simp_all add: req_key_def json_body_example post_ts_def example_body_def post_key_def
      padStart_def js_String_def nat_digits.simps digit_char_def replicate_numeral)

text \<open>
  Three posts, of timestamps 5, 3 and 9, are appended under a bound of two: the posts of 5
  and 9 are left, each with its record, and the post of 3 is gone.
\<close>

theorem bounded_log_keeps_most_recent_witness:
  "0 < limit example_empty \<and> (\<forall>k. \<not> delete_fails example_empty k) \<and>
   prefix_keys example_empty ''post:'' = [] \<and>
   max_posts example_env = Some (int 2) \<and> 2 < length example_requests \<and>
   map (accepted example_env) example_requests = [True, True, True] \<and>
   map req_ts example_requests = [5, 3, 9] \<and>
   distinct (map req_key example_requests) \<and>
   (\<exists>ns. serve_posts example_env example_requests example_empty = Some ns \<and>
      length (prefix_keys ns ''post:'') = 2 \<and>
      sort (prefix_keys ns ''post:'') = [''post:0000000000005:a'', ''post:0000000000009:c''] \<and>
      ns_get ns ''post:0000000000003:b'' = None \<and>
      ns_get ns ''post:0000000000005:a'' = Some (example_post 5 ''a'') \<and>
      ns_get ns ''post:0000000000009:c'' = Some (example_post 9 ''c'') \<and>
      map_option value_timestamp (ns_get ns ''post:0000000000009:c'') = Some 9)"
proof -
  have l: "0 < limit example_empty" and f: "\<forall>k. \<not> delete_fails example_empty k"
    and p: "prefix_keys example_empty ''post:'' = []"
    by (simp_all add: example_empty_def prefix_keys_def kv_keys_def)
  have m: "max_posts example_env = Some (int 2)" by (simp add: max_posts_example)
  have n: "2 < length example_requests" by (simp add: example_requests_def)
  have a: "map (accepted example_env) example_requests = [True, True, True]"
    by (simp add: example_requests_def accepted_example)
  have t: "map req_ts example_requests = [5, 3, 9]"
    by (simp add: example_requests_def req_ts_example)
  have ks: "map req_key example_requests =
      [''post:0000000000005:a'', ''post:0000000000003:b'', ''post:0000000000009:c'']"
    by (simp add: example_requests_def req_key_examples)
  have d: "distinct (map req_key example_requests)" unfolding ks by simp
  have h: "\<forall>r\<in>set example_requests.
             accepted example_env r \<and> 0 \<le> req_ts r \<and> req_ts r < 10 ^ 13"
    by (simp add: example_requests_def accepted_example req_ts_example)
  from bounded_log_keeps_most_recent[OF l f p m n h d] obtain ns where
    s: "serve_posts example_env example_requests example_empty = Some ns" and
    c: "length (prefix_keys ns ''post:'') = 2" and
    k: "sort (prefix_keys ns ''post:'') =
          drop (length example_requests - 2) (sort (map req_key example_requests))" and
    v: "\<forall>r\<in>set example_requests. ns_get ns (req_key r) =
        (if req_key r \<in> set (prefix_keys ns ''post:'') then req_value r else None)"
    by (elim exE conjE) (rule that; assumption)
  have k': "sort (prefix_keys ns ''post:'') = [''post:0000000000005:a'', ''post:0000000000009:c'']"
    unfolding k ks by (simp add: example_requests_def)
  have "set (prefix_keys ns ''post:'') = set [''post:0000000000005:a'', ''post:0000000000009:c'']"
    using k' by (metis set_sort)
  then have sk: "set (prefix_keys ns ''post:'') =
      {''post:0000000000005:a'', ''post:0000000000009:c''}" by simp
  have v3: "ns_get ns ''post:0000000000003:b'' = None"
    and v5: "ns_get ns ''post:0000000000005:a'' = Some (example_post 5 ''a'')"
    and v9: "ns_get ns ''post:0000000000009:c'' = Some (example_post 9 ''c'')"
    using v unfolding sk
    by (simp_all add: example_requests_def req_key_examples req_value_example)
  have t9: "map_option value_timestamp (ns_get ns ''post:0000000000009:c'') = Some 9"
    unfolding v9 by (simp add: value_timestamp_def example_post_def)
  show ?thesis
    by (intro conjI exI[of _ ns]) (rule l f p m n a t d s c k' v3 v5 v9 t9)+
qed

lemma isAuthed_example_one: "isAuthed example_env_one r = isAuthed example_env r"
  by (simp add: example_env_one_def)

lemma max_posts_example_one: "max_posts example_env_one = Some 1"
  by (simp add: max_posts_def parseInt_def example_env_one_def example_env_def is_space_def
      is_digit_def digits_value_def digit_val_def)

lemma post_key_examples_late:
  "post_key (post_ts (example_body 9999999999999 ''a'') t)
     (body_id (example_body 9999999999999 ''a'')) u = ''post:9999999999999:a''"
  "post_key (post_ts (example_body 10000000000000 ''b'') t)
     (body_id (example_body 10000000000000 ''b'')) u = ''post:10000000000000:b''"
  by (simp_all add: post_key_def post_ts_def example_body_def padStart_def js_String_def
      nat_digits.simps digit_char_def)

lemma post_key_examples_early:
  "post_key (post_ts (example_body (- 6) ''b'') t)
     (body_id (example_body (- 6) ''b'')) u = ''post:00000000000-6:b''"
  "post_key (post_ts (example_body (- 5) ''a'') t)
     (body_id (example_body (- 5) ''a'')) u = ''post:00000000000-5:a''"
  by (simp_all add: post_key_def post_ts_def example_body_def padStart_def js_String_def
      nat_digits.simps digit_char_def replicate_numeral)

text \<open>
  The claim as stated fails for timestamps outside the 13 digits of the key. With a
  bound of one, a post of timestamp \<open>9999999999999\<close> and then a post of timestamp \<open>10^13\<close>
  are appended: the more recent one has the smaller key, \<open>post:10000000000000:b\<close>, and is
  the one the trim deletes. The same happens with the timestamps \<open>-6\<close> and \<open>-5\<close>, whose
  keys are \<open>post:00000000000-6:b\<close> and \<open>post:00000000000-5:a\<close>.
\<close>

theorem bounded_log_keeps_most_recent_counterexample:
  "max_posts example_env_one = Some 1 \<and>
   map req_ts example_late_requests = [9999999999999, 10000000000000] \<and>
   map_option (\<lambda>ns. prefix_keys ns ''post:'')
     (serve_posts example_env_one example_late_requests example_empty) =
     Some [''post:9999999999999:a''] \<and>
   map req_ts example_early_requests = [- 6, - 5] \<and>
   map_option (\<lambda>ns. prefix_keys ns ''post:'')
     (serve_posts example_env_one example_early_requests example_empty) =
     Some [''post:00000000000-6:b'']"
proof -
  have l: "0 < limit example_empty" and f: "\<forall>k. \<not> delete_fails example_empty k"
    by (simp_all add: example_empty_def)
  have pe: "pairs example_empty = []" by (simp add: example_empty_def)
  have 1: "map req_ts example_late_requests = [9999999999999, 10000000000000]"
    by (simp add: example_late_requests_def req_ts_example)
  have 2: "map_option (\<lambda>ns. prefix_keys ns ''post:'')
     (serve_posts example_env_one example_late_requests example_empty) =
     Some [''post:9999999999999:a'']"
    by (simp add: example_late_requests_def posts_post_appended[OF _ _ image_url_example]
        isAuthed_example_one isAuthed_example json_body_example l f
        post_key_examples_late max_posts_example_one)
       (simp add: prefix_keys_def kv_keys_def pairs_appended f pe toDelete_def sorted_names_def
        ns_put_def slice0_def)
  have 3: "map req_ts example_early_requests = [- 6, - 5]"
    by (simp add: example_early_requests_def req_ts_example)
  have 4: "map_option (\<lambda>ns. prefix_keys ns ''post:'')
     (serve_posts example_env_one example_early_requests example_empty) =
     Some [''post:00000000000-6:b'']"
    by (simp add: example_early_requests_def posts_post_appended[OF _ _ image_url_example]
        isAuthed_example_one isAuthed_example json_body_example l f
        post_key_examples_early max_posts_example_one)
       (simp add: prefix_keys_def kv_keys_def pairs_appended f pe toDelete_def sorted_names_def
        ns_put_def slice0_def)
  from max_posts_example_one 1 2 3 4 show ?thesis by simp
qed

end
